theory Spec2Isabelle
  imports Main "HOL-Library.Word" "HOL-Library.List_Lexorder" "HOL-Library.Sublist"
    "HOL-Library.Code_Target_Nat"
begin

section \<open>Strings, bytes and the platform\<close>

text \<open>
  A JavaScript string is a sequence of UTF-16 code units; \<open>length\<close>, \<open>slice\<close> and a
  regular expression without the \<open>u\<close> flag all count code units. A string literal of the
  source that is pure ASCII is written \<open>js ''...''\<close>.
\<close>

type_synonym jsstring = "16 word list"
type_synonym bytes = "8 word list"

definition js :: "string \<Rightarrow> jsstring" where
  "js cs = map of_char cs"

text \<open>\<open>s.includes(q)\<close>: \<open>q\<close> occurs in \<open>s\<close> as a contiguous run.\<close>

fun includes_str :: "jsstring \<Rightarrow> jsstring \<Rightarrow> bool" where
  "includes_str [] q = (q = [])"
| "includes_str (c # s) q = (take (length q) (c # s) = q \<or> includes_str s q)"

text \<open>\<open>s.endsWith(e)\<close>.\<close>

definition endsWith :: "jsstring \<Rightarrow> jsstring \<Rightarrow> bool" where
  "endsWith s e = (length e \<le> length s \<and> drop (length s - length e) s = e)"

text \<open>
  \<open>String.prototype.trim\<close> removes the code points of WhiteSpace and LineTerminator
  (ECMAScript: TAB, VT, FF, SP, NBSP, ZWNBSP, the category Zs, LF, CR, LS, PS) from both ends.
\<close>

definition is_js_whitespace :: "16 word \<Rightarrow> bool" where
  "is_js_whitespace c =
     (c = 0x9 \<or> c = 0xA \<or> c = 0xB \<or> c = 0xC \<or> c = 0xD \<or> c = 0x20 \<or> c = 0xA0 \<or> c = 0x1680 \<or>
      (0x2000 \<le> c \<and> c \<le> 0x200A) \<or> c = 0x2028 \<or> c = 0x2029 \<or> c = 0x202F \<or> c = 0x205F \<or>
      c = 0x3000 \<or> c = 0xFEFF)"

definition trim :: "jsstring \<Rightarrow> jsstring" where
  "trim s = rev (dropWhile is_js_whitespace (rev (dropWhile is_js_whitespace s)))"

text \<open>The number-to-string conversion of \<open>+\<close> on a non-negative integer: its decimal digits.\<close>

fun dec :: "nat \<Rightarrow> jsstring" where
  "dec n = (if n < 10 then [of_nat (48 + n)] else dec (n div 10) @ [of_nat (48 + n mod 10)])"

declare dec.simps [simp del]

text \<open>
  \<open>unescape(encodeURIComponent(s))\<close> is the UTF-8 encoding of \<open>s\<close>, one character per byte;
  \<open>encodeURIComponent\<close> throws a URIError (here \<open>None\<close>) on an unpaired surrogate.
\<close>

definition is_high_surrogate :: "16 word \<Rightarrow> bool" where
  "is_high_surrogate c = (0xD800 \<le> c \<and> c \<le> 0xDBFF)"

definition is_low_surrogate :: "16 word \<Rightarrow> bool" where
  "is_low_surrogate c = (0xDC00 \<le> c \<and> c \<le> 0xDFFF)"

fun code_points :: "jsstring \<Rightarrow> nat list option" where
  "code_points [] = Some []"
| "code_points [c] = (if is_high_surrogate c \<or> is_low_surrogate c then None else Some [unat c])"
| "code_points (c # d # cs) =
     (if is_high_surrogate c then
        (if is_low_surrogate d
         then map_option ((#) (0x10000 + (unat c - 0xD800) * 0x400 + (unat d - 0xDC00))) (code_points cs)
         else None)
      else if is_low_surrogate c then None
      else map_option ((#) (unat c)) (code_points (d # cs)))"

definition utf8 :: "nat \<Rightarrow> nat list" where
  "utf8 cp =
     (if cp < 0x80 then [cp]
      else if cp < 0x800 then [0xC0 + cp div 64, 0x80 + cp mod 64]
      else if cp < 0x10000 then [0xE0 + cp div 4096, 0x80 + (cp div 64) mod 64, 0x80 + cp mod 64]
      else [0xF0 + cp div 262144, 0x80 + (cp div 4096) mod 64, 0x80 + (cp div 64) mod 64,
            0x80 + cp mod 64])"

definition encode_utf8 :: "jsstring \<Rightarrow> nat list option" where
  "encode_utf8 s = map_option (\<lambda>cps. concat (map utf8 cps)) (code_points s)"

text \<open>\<open>btoa\<close> on a string of characters below 256: base64 with padding.\<close>

definition b64 :: "nat \<Rightarrow> 16 word" where
  "b64 n = (if n < 26 then of_nat (65 + n) else if n < 52 then of_nat (97 + (n - 26))
            else if n < 62 then of_nat (48 + (n - 52)) else if n = 62 then 0x2B else 0x2F)"

fun btoa :: "nat list \<Rightarrow> jsstring" where
  "btoa [] = []"
| "btoa [a] = [b64 (a div 4), b64 ((a mod 4) * 16), 0x3D, 0x3D]"
| "btoa [a, b] = [b64 (a div 4), b64 ((a mod 4) * 16 + b div 16), b64 ((b mod 16) * 4), 0x3D]"
| "btoa (a # b # c # r) =
     [b64 (a div 4), b64 ((a mod 4) * 16 + b div 16), b64 ((b mod 16) * 4 + c div 64),
      b64 (c mod 64)] @ btoa r"

section \<open>Data model\<close>

record blob =
  blob_bytes :: bytes
  blob_type :: jsstring

text \<open>The \<open>data\<close> field of a record: a Blob, a string (a URL), or anything else.\<close>

datatype payload = BlobData blob | StringData jsstring | OtherData

text \<open>A stored font; \<open>userTag\<close> is \<open>None\<close> where the property is \<open>undefined\<close>.\<close>

record font_record =
  fileName :: jsstring
  data :: payload
  userTag :: "jsstring option"

text \<open>
  A \<open>File\<close> handed to the upload: its name, the size and type the browser reports, its
  content, and whether each of the two reads the upload makes of it (the first four bytes,
  then all of it) succeeds.
\<close>

record js_file =
  file_name :: jsstring
  file_size :: nat
  file_type :: jsstring
  file_bytes :: bytes
  slice_read_ok :: bool
  full_read_ok :: bool

datatype url = BlobUrl nat | StringUrl jsstring

record css_rule =
  family :: jsstring
  src :: url

text \<open>The children of the grid: a card (by the identity of its element) or the placeholder.\<close>

datatype node = Card nat | EmptyState

record entry =
  card :: nat
  preview :: nat

text \<open>The notifications of \<open>toast\<close>, one constructor per message of the source.\<close>

datatype toast =
    LoadFailed | UnsupportedFormat | LimitExceeded | NoSpace
  | TooBig jsstring | BadSignature jsstring | ReadFailed jsstring | Uploaded nat
  | Deleted | DeleteFailed | Cleared | ClearFailed | NoExportResults | NoData

text \<open>
  Everything the browser decides and the source does not: the answer to \<open>confirm\<close>, the
  outcome of each IndexedDB transaction, the storage estimate, whether the CSS parser takes
  a rule, whether the page already has an element \<open>fsp-styles\<close>, and the Unicode tables
  behind \<open>toLowerCase\<close> outside ASCII.
\<close>

record env =
  unicode_lower :: "jsstring \<Rightarrow> jsstring"
  confirm_answer :: bool
  db_init_ok :: bool
  getAll_ok :: bool
  put_ok :: "jsstring \<Rightarrow> bool"
  delete_ok :: "jsstring \<Rightarrow> bool"
  clear_ok :: bool
  estimate :: "(int \<times> int) option"
  css_parses :: "css_rule \<Rightarrow> bool"
  style_element_exists :: bool

text \<open>
  \<open>String.prototype.toLowerCase\<close>: on a string of ASCII code units only, the result is the
  string with \<open>A\<close>..\<open>Z\<close> replaced by \<open>a\<close>..\<open>z\<close>; on any other string it is what the
  Unicode default case conversion gives, a parameter of the model.
\<close>

definition ascii_lower :: "16 word \<Rightarrow> 16 word" where
  "ascii_lower c = (if 0x41 \<le> c \<and> c \<le> 0x5A then c + 0x20 else c)"

definition toLowerCase :: "env \<Rightarrow> jsstring \<Rightarrow> jsstring" where
  "toLowerCase E s = (if list_all (\<lambda>c. c < 0x80) s then map ascii_lower s else unicode_lower E s)"

text \<open>
  \<open>STATE\<close> and what the page holds besides it. The records in \<open>fonts\<close> and \<open>filtered\<close>
  are objects shared between the two arrays, so both are lists of references into \<open>heap\<close>.
  \<open>db\<close> says whether \<open>STATE.db\<close> is set; \<open>store\<close> is the object store \<open>fonts\<close>;
  \<open>sheet\<close> is \<open>MasterStyle.sheet\<close> (\<open>None\<close> for \<open>null\<close>) with its rules; \<open>grid\<close> is the
  list of children of \<open>DOM.grid\<close>; \<open>toasts\<close> and \<open>revoked\<close> log the notifications shown and
  the object URLs revoked. The progress bar, the counters, the icons and the console are
  not modelled.
\<close>

record state =
  db :: bool
  heap :: "nat \<Rightarrow> font_record"
  next_ref :: nat
  fonts :: "nat list"
  filtered :: "nat list"
  search :: jsstring
  loadedFonts :: "jsstring set"
  objectUrls :: "(jsstring \<times> url) list"
  renderedMap :: "(jsstring \<times> entry) list"
  previewNodes :: "nat list"
  isProcessing :: bool
  sheet :: "css_rule list option"
  grid :: "node list"
  next_node :: nat
  next_url :: nat
  store :: "font_record list"
  toasts :: "toast list"
  revoked :: "url list"

definition MAX_FONTS :: nat where
  "MAX_FONTS = 500"

definition MAX_FILE_SIZE :: nat where
  "MAX_FILE_SIZE = 50 * 1024 * 1024"

definition toast :: "toast \<Rightarrow> state \<Rightarrow> state" where
  "toast m s = s\<lparr>toasts := toasts s @ [m]\<rparr>"

section \<open>Storage layer\<close>

text \<open>
  The object store has \<open>fileName\<close> as its key path: \<open>put\<close> replaces the row of the same
  key or adds one, and \<open>getAll\<close> returns the rows in key order.
\<close>

fun store_put :: "font_record \<Rightarrow> font_record list \<Rightarrow> font_record list" where
  "store_put r [] = [r]"
| "store_put r (x # xs) = (if fileName x = fileName r then r # xs else x # store_put r xs)"

definition store_getAll :: "font_record list \<Rightarrow> font_record list" where
  "store_getAll rows = sort_key fileName rows"

definition store_delete :: "jsstring \<Rightarrow> font_record list \<Rightarrow> font_record list" where
  "store_delete k rows = [r \<leftarrow> rows. fileName r \<noteq> k]"

text \<open>
  \<open>DB.put\<close>, \<open>DB.delete\<close>, \<open>DB.clear\<close>: the promise is rejected when \<open>STATE.db\<close> is not
  set or the transaction fails (\<open>None\<close>), and resolved with the store written otherwise.
\<close>

definition DB_put :: "env \<Rightarrow> font_record \<Rightarrow> state \<Rightarrow> state option" where
  "DB_put E item s =
     (if db s \<and> put_ok E (fileName item) then Some (s\<lparr>store := store_put item (store s)\<rparr>)
      else None)"

definition DB_delete :: "env \<Rightarrow> jsstring \<Rightarrow> state \<Rightarrow> state option" where
  "DB_delete E k s =
     (if db s \<and> delete_ok E k then Some (s\<lparr>store := store_delete k (store s)\<rparr>) else None)"

definition DB_clear :: "env \<Rightarrow> state \<Rightarrow> state option" where
  "DB_clear E s = (if db s \<and> clear_ok E then Some (s\<lparr>store := []\<rparr>) else None)"

text \<open>\<open>DB.getAll\<close> resolves with the empty list when \<open>STATE.db\<close> is not set.\<close>

definition DB_getAll :: "env \<Rightarrow> state \<Rightarrow> font_record list option" where
  "DB_getAll E s =
     (if \<not> db s then Some [] else if getAll_ok E then Some (store_getAll (store s)) else None)"

section \<open>Security\<close>

text \<open>The character class of the regular expression in \<open>sanitizeTag\<close>.\<close>

definition stripped_class :: "16 word \<Rightarrow> bool" where
  "stripped_class c =
     (c \<le> 0x1F \<or> (0x7F \<le> c \<and> c \<le> 0x9F) \<or> c = 0x200E \<or> c = 0x200F \<or>
      (0x202A \<le> c \<and> c \<le> 0x202E))"

definition sanitizeTag :: "jsstring \<Rightarrow> jsstring" where
  "sanitizeTag str =
     (if str = [] then [] else [c \<leftarrow> take 40 (trim str). \<not> stripped_class c])"

definition is_alnum :: "16 word \<Rightarrow> bool" where
  "is_alnum c = ((0x61 \<le> c \<and> c \<le> 0x7A) \<or> (0x41 \<le> c \<and> c \<le> 0x5A) \<or> (0x30 \<le> c \<and> c \<le> 0x39))"

text \<open>\<open>safeFontId\<close>; \<open>None\<close> when \<open>encodeURIComponent\<close> throws.\<close>

definition safeFontId :: "jsstring \<Rightarrow> payload \<Rightarrow> jsstring option" where
  "safeFontId fn d =
     (let size = (case d of BlobData b \<Rightarrow> length (blob_bytes b) | _ \<Rightarrow> 0);
          type = (case d of BlobData b \<Rightarrow> (if blob_type b = [] then js ''na'' else blob_type b)
                  | _ \<Rightarrow> js ''na'');
          base = fn @ js ''_'' @ dec size @ js ''_'' @ type
      in case encode_utf8 base of
           None \<Rightarrow> None
         | Some encodedBase \<Rightarrow>
             (let safeStr = map (\<lambda>c. if is_alnum c then c else 0x5F) fn;
                  hash = take 8 [c \<leftarrow> btoa encodedBase. c \<noteq> 0x3D]
              in Some (js ''f_'' @ take 20 safeStr @ js ''_'' @ hash)))"

text \<open>
  \<open>checkSignature\<close>: the promise it returns, \<open>Resolved b\<close> or \<open>Rejected\<close>. The reader
  loads the slice of the first four bytes or fails; \<open>getUint32(0, false)\<close> reads the four
  bytes big-endian.
\<close>

datatype 'a promise = Resolved 'a | Rejected

definition getUint32 :: "bytes \<Rightarrow> nat" where
  "getUint32 v = ((unat (v ! 0) * 256 + unat (v ! 1)) * 256 + unat (v ! 2)) * 256 + unat (v ! 3)"

definition magic_numbers :: "nat list" where
  "magic_numbers = [0x00010000, 0x4F54544F, 0x774F4646, 0x774F4632]"

definition checkSignature :: "js_file \<Rightarrow> bool promise" where
  "checkSignature f =
     (if \<not> slice_read_ok f then Resolved False
      else let view = take 4 (file_bytes f) in
           if length view < 4 then Resolved False
           else Resolved (getUint32 view \<in> set magic_numbers))"

section \<open>Style sheet and font faces\<close>

text \<open>
  An exception that escapes an operation leaves the state as mutated so far: such a result
  is \<open>Inl (e, s)\<close>, a normal return \<open>Inr s\<close>.
\<close>

datatype error = URIError | TypeError | StorageError

definition settle :: "(error \<times> state) + state \<Rightarrow> state" where
  "settle r = (case r of Inl (e, s) \<Rightarrow> s | Inr s \<Rightarrow> s)"

text \<open>\<open>MasterStyle.init\<close> returns early, leaving \<open>sheet\<close> null, when the element exists.\<close>

definition MasterStyle_init :: "env \<Rightarrow> state \<Rightarrow> state" where
  "MasterStyle_init E s = (if style_element_exists E then s else s\<lparr>sheet := Some []\<rparr>)"

text \<open>\<open>MasterStyle.insert\<close> catches whatever \<open>insertRule\<close> throws, a null sheet included.\<close>

definition MasterStyle_insert :: "env \<Rightarrow> css_rule \<Rightarrow> state \<Rightarrow> state" where
  "MasterStyle_insert E rule s =
     (case sheet s of
        None \<Rightarrow> s
      | Some rules \<Rightarrow> if css_parses E rule then s\<lparr>sheet := Some (rules @ [rule])\<rparr> else s)"

text \<open>\<open>MasterStyle.clear\<close> throws a TypeError (\<open>None\<close>) on a null sheet.\<close>

definition MasterStyle_clear :: "state \<Rightarrow> state option" where
  "MasterStyle_clear s = (case sheet s of None \<Rightarrow> None | Some rules \<Rightarrow> Some (s\<lparr>sheet := Some []\<rparr>))"

definition getFontUrl :: "jsstring \<Rightarrow> payload \<Rightarrow> state \<Rightarrow> url option \<times> state" where
  "getFontUrl fn d s =
     (case map_of (objectUrls s) fn of
        Some u \<Rightarrow> (Some u, s)
      | None \<Rightarrow>
          (case d of
             BlobData b \<Rightarrow>
               (Some (BlobUrl (next_url s)),
                s\<lparr>next_url := Suc (next_url s),
                  objectUrls := objectUrls s @ [(fn, BlobUrl (next_url s))]\<rparr>)
           | StringData str \<Rightarrow>
               (Some (StringUrl str), s\<lparr>objectUrls := objectUrls s @ [(fn, StringUrl str)]\<rparr>)
           | OtherData \<Rightarrow> (None, s)))"

text \<open>\<open>!url\<close>: null, or the empty string.\<close>

fun falsy_url :: "url option \<Rightarrow> bool" where
  "falsy_url None = True"
| "falsy_url (Some (StringUrl str)) = (str = [])"
| "falsy_url (Some (BlobUrl n)) = False"

text \<open>\<open>injectFontFace\<close> returns the identifier, or null (\<open>None\<close>), or throws.\<close>

definition injectFontFace ::
  "env \<Rightarrow> jsstring \<Rightarrow> payload \<Rightarrow> state \<Rightarrow> (error + jsstring option) \<times> state" where
  "injectFontFace E fn d s =
     (case safeFontId fn d of
        None \<Rightarrow> (Inl URIError, s)
      | Some fontId \<Rightarrow>
          if fontId \<in> loadedFonts s then (Inr (Some fontId), s)
          else
            (case getFontUrl fn d s of
               (u, s1) \<Rightarrow>
                 (case u of
                    None \<Rightarrow> (Inr None, s1)
                  | Some v \<Rightarrow>
                      if falsy_url u then (Inr None, s1)
                      else
                        (let s2 = MasterStyle_insert E \<lparr>family = fontId, src = v\<rparr> s1
                         in (Inr (Some fontId), s2\<lparr>loadedFonts := insert fontId (loadedFonts s2)\<rparr>)))))"

section \<open>Filtering and rendering\<close>

text \<open>
  The predicate of \<open>filter\<close>: \<open>f.fileName && ...includes(q) || f.userTag && ...includes(q)\<close>,
  where an empty or undefined string is falsy.
\<close>

definition matches :: "env \<Rightarrow> jsstring \<Rightarrow> font_record \<Rightarrow> bool" where
  "matches E q f =
     ((fileName f \<noteq> [] \<and> includes_str (toLowerCase E (fileName f)) q) \<or>
      (case userTag f of
         None \<Rightarrow> False
       | Some t \<Rightarrow> t \<noteq> [] \<and> includes_str (toLowerCase E t) q))"

text \<open>
  \<open>insertBefore(c, ref)\<close> and \<open>appendChild(c)\<close> on the children of the grid: a node that is
  already a child is moved.
\<close>

definition insertBefore :: "node \<Rightarrow> node \<Rightarrow> node list \<Rightarrow> node list" where
  "insertBefore c ref ch =
     (let ch' = removeAll c ch
      in takeWhile (\<lambda>n. n \<noteq> ref) ch' @ c # dropWhile (\<lambda>n. n \<noteq> ref) ch')"

definition appendChild :: "node \<Rightarrow> node list \<Rightarrow> node list" where
  "appendChild c ch = removeAll c ch @ [c]"

text \<open>The end of the body of the \<open>forEach\<close> in \<open>render\<close>: put the card at \<open>index\<close>.\<close>

definition place :: "nat \<Rightarrow> entry \<Rightarrow> state \<Rightarrow> state" where
  "place index e s =
     (let ch = grid s;
          s1 = (if index < length ch \<and> ch ! index = Card (card e) then s
                else if index \<ge> length ch then s\<lparr>grid := appendChild (Card (card e)) ch\<rparr>
                else s\<lparr>grid := insertBefore (Card (card e)) (ch ! index) ch\<rparr>)
      in s1\<lparr>previewNodes := previewNodes s1 @ [preview e]\<rparr>)"

text \<open>The \<open>forEach\<close> over \<open>STATE.filtered\<close>, from position \<open>index\<close> on.\<close>

fun render_each :: "env \<Rightarrow> nat list \<Rightarrow> nat \<Rightarrow> state \<Rightarrow> (error \<times> state) + state" where
  "render_each E [] index s = Inr s"
| "render_each E (r # rs) index s =
     (let font = heap s r in
      case map_of (renderedMap s) (fileName font) of
        Some e \<Rightarrow> render_each E rs (Suc index) (place index e s)
      | None \<Rightarrow>
          (case injectFontFace E (fileName font) (data font) s of
             (Inl err, s1) \<Rightarrow> Inl (err, s1)
           | (Inr None, s1) \<Rightarrow> render_each E rs (Suc index) s1
           | (Inr (Some fontId), s1) \<Rightarrow>
               (let e = \<lparr>card = next_node s1, preview = Suc (next_node s1)\<rparr>;
                    s2 = s1\<lparr>next_node := Suc (Suc (next_node s1)),
                            renderedMap := renderedMap s1 @ [(fileName font, e)]\<rparr>
                in render_each E rs (Suc index) (place index e s2))))"

definition render :: "env \<Rightarrow> state \<Rightarrow> (error \<times> state) + state" where
  "render E s =
     (let validKeys = map (\<lambda>r. fileName (heap s r)) (filtered s);
          gone = [kv \<leftarrow> renderedMap s. fst kv \<notin> set validKeys];
          s1 = s\<lparr>grid := [n \<leftarrow> grid s. n \<notin> set (map (\<lambda>kv. Card (card (snd kv))) gone)],
                 renderedMap := [kv \<leftarrow> renderedMap s. fst kv \<in> set validKeys]\<rparr>;
          s2 = (if filtered s1 = []
                then (if EmptyState \<in> set (grid s1) then s1
                      else s1\<lparr>grid := grid s1 @ [EmptyState]\<rparr>)
                else s1\<lparr>grid := remove1 EmptyState (grid s1)\<rparr>);
          s3 = s2\<lparr>previewNodes := []\<rparr>
      in render_each E (filtered s3) 0 s3)"

definition filter_view :: "env \<Rightarrow> state \<Rightarrow> (error \<times> state) + state" where
  "filter_view E s =
     (let q = toLowerCase E (search s)
      in render E (s\<lparr>filtered := [r \<leftarrow> fonts s. matches E q (heap s r)]\<rparr>))"

text \<open>The search box: \<open>STATE.search = e.target.value; filter()\<close>.\<close>

definition setSearch :: "env \<Rightarrow> jsstring \<Rightarrow> state \<Rightarrow> (error \<times> state) + state" where
  "setSearch E v s = filter_view E (s\<lparr>search := v\<rparr>)"

section \<open>Loading\<close>

text \<open>The records \<open>getAll\<close> returns are new objects.\<close>

definition alloc :: "font_record list \<Rightarrow> state \<Rightarrow> nat list \<times> state" where
  "alloc recs s =
     ([next_ref s ..< next_ref s + length recs],
      s\<lparr>heap := (\<lambda>a. if next_ref s \<le> a \<and> a < next_ref s + length recs
                       then recs ! (a - next_ref s) else heap s a),
        next_ref := next_ref s + length recs\<rparr>)"

definition loadFonts :: "env \<Rightarrow> state \<Rightarrow> (error \<times> state) + state" where
  "loadFonts E s =
     (case DB_getAll E s of
        None \<Rightarrow> Inl (StorageError, s)
      | Some recs \<Rightarrow>
          (case alloc recs s of
             (refs, s0) \<Rightarrow>
               (let s1 = s0\<lparr>fonts := refs, grid := [], renderedMap := [], previewNodes := []\<rparr>
                in case MasterStyle_clear s1 of
                     None \<Rightarrow> Inl (TypeError, s1)
                   | Some s2 \<Rightarrow> filter_view E (s2\<lparr>loadedFonts := {}\<rparr>))))"

definition initial :: state where
  "initial =
     \<lparr>db = False, heap = (\<lambda>a. \<lparr>fileName = [], data = OtherData, userTag = None\<rparr>), next_ref = 0,
      fonts = [], filtered = [], search = [], loadedFonts = {}, objectUrls = [],
      renderedMap = [], previewNodes = [], isProcessing = False, sheet = None, grid = [],
      next_node = 0, next_url = 0, store = [], toasts = [], revoked = []\<rparr>"

text \<open>
  \<open>init\<close>, with the load it schedules: \<open>rows\<close> is what the object store holds when the
  page opens.
\<close>

definition init :: "env \<Rightarrow> font_record list \<Rightarrow> state" where
  "init E rows =
     (let s1 = MasterStyle_init E (initial\<lparr>store := rows\<rparr>)
      in if db_init_ok E then settle (loadFonts E (s1\<lparr>db := True\<rparr>)) else toast LoadFailed s1)"

section \<open>Actions\<close>

definition validExtensions :: "jsstring list" where
  "validExtensions = [js ''.ttf'', js ''.otf'', js ''.woff'', js ''.woff2'']"

definition validFiles :: "env \<Rightarrow> js_file list \<Rightarrow> js_file list" where
  "validFiles E files =
     [f \<leftarrow> files. list_ex (\<lambda>ext. endsWith (toLowerCase E (file_name f)) ext) validExtensions]"

text \<open>
  \<open>handleUpload\<close> up to the loop: the busy check, the extension filter, the limit check and
  the storage estimate (\<open>estimate E\<close> is \<open>None\<close> when the browser has no estimate or the
  call fails). The result is \<open>None\<close> with the state at the early return, or the files to
  process with the busy flag set.
\<close>

definition begin_upload :: "env \<Rightarrow> js_file list \<Rightarrow> state \<Rightarrow> js_file list option \<times> state" where
  "begin_upload E files s =
     (if isProcessing s then (None, s)
      else
        (let vs = validFiles E files in
         if vs = [] then (None, toast UnsupportedFormat s)
         else if length (fonts s) + length vs > MAX_FONTS then (None, toast LimitExceeded s)
         else if (case estimate E of
                    None \<Rightarrow> False
                  | Some (quota, usage) \<Rightarrow> quota - usage < int (sum_list (map file_size vs)))
              then (None, toast NoSpace s)
         else (Some vs, s\<lparr>isProcessing := True\<rparr>)))"

text \<open>One turn of the loop, on the state and \<open>successCount\<close>.\<close>

definition upload_file :: "env \<Rightarrow> js_file \<Rightarrow> state \<times> nat \<Rightarrow> state \<times> nat" where
  "upload_file E f = (\<lambda>(s, successCount).
     if file_size f > MAX_FILE_SIZE then (toast (TooBig (file_name f)) s, successCount)
     else
       (case checkSignature f of
          Rejected \<Rightarrow> (toast (ReadFailed (file_name f)) s, successCount)
        | Resolved isValidSignature \<Rightarrow>
            if \<not> isValidSignature then (toast (BadSignature (file_name f)) s, successCount)
            else
              (let tag = (case find (\<lambda>r. fileName (heap s r) = file_name f) (fonts s) of
                            Some r \<Rightarrow> userTag (heap s r)
                          | None \<Rightarrow> Some [])
               in if \<not> full_read_ok f then (toast (ReadFailed (file_name f)) s, successCount)
                  else
                    (let b = \<lparr>blob_bytes = file_bytes f,
                              blob_type = (if file_type f = [] then js ''application/octet-stream''
                                           else file_type f)\<rparr>
                     in case DB_put E \<lparr>fileName = file_name f, data = BlobData b, userTag = tag\<rparr> s of
                          None \<Rightarrow> (toast (ReadFailed (file_name f)) s, successCount)
                        | Some s1 \<Rightarrow> (s1, Suc successCount)))))"

fun upload_files :: "env \<Rightarrow> js_file list \<Rightarrow> state \<times> nat \<Rightarrow> state \<times> nat" where
  "upload_files E [] sn = sn"
| "upload_files E (f # fs) sn = upload_files E fs (upload_file E f sn)"

text \<open>The callback of the final \<open>setTimeout\<close>; a failure of \<open>loadFonts\<close> there is unhandled.\<close>

definition finish_upload :: "env \<Rightarrow> state \<times> nat \<Rightarrow> state" where
  "finish_upload E = (\<lambda>(s, successCount).
     (let s1 = s\<lparr>isProcessing := False\<rparr>;
          s2 = (if successCount > 0 then toast (Uploaded successCount) s1 else s1)
      in settle (loadFonts E s2)))"

definition handleUpload :: "env \<Rightarrow> js_file list \<Rightarrow> state \<Rightarrow> state" where
  "handleUpload E files s =
     (case begin_upload E files s of
        (None, s') \<Rightarrow> s'
      | (Some vs, s1) \<Rightarrow> finish_upload E (upload_files E vs (s1, 0)))"

definition deleteSingleFont :: "env \<Rightarrow> jsstring \<Rightarrow> state \<Rightarrow> state" where
  "deleteSingleFont E fn s =
     (if \<not> confirm_answer E then s
      else
        (case DB_delete E fn s of
           None \<Rightarrow> toast DeleteFailed s
         | Some s0 \<Rightarrow>
             (let s1 = s0\<lparr>fonts := [r \<leftarrow> fonts s0. fileName (heap s0 r) \<noteq> fn],
                         filtered := [r \<leftarrow> filtered s0. fileName (heap s0 r) \<noteq> fn]\<rparr>;
                  s2 = (case map_of (objectUrls s1) fn of
                          Some u \<Rightarrow> s1\<lparr>revoked := revoked s1 @ [u],
                                       objectUrls := [kv \<leftarrow> objectUrls s1. fst kv \<noteq> fn]\<rparr>
                        | None \<Rightarrow> s1);
                  s3 = (case map_of (renderedMap s2) fn of
                          Some e \<Rightarrow> s2\<lparr>grid := removeAll (Card (card e)) (grid s2),
                                       renderedMap := [kv \<leftarrow> renderedMap s2. fst kv \<noteq> fn]\<rparr>
                        | None \<Rightarrow> s2)
              in case filter_view E s3 of
                   Inr s4 \<Rightarrow> toast Deleted s4
                 | Inl (err, s4) \<Rightarrow> toast DeleteFailed s4)))"

definition clearAll :: "env \<Rightarrow> state \<Rightarrow> state" where
  "clearAll E s =
     (if \<not> confirm_answer E then s
      else if isProcessing s then s
      else
        (let s0 = s\<lparr>isProcessing := True\<rparr>;
             s4 = (case DB_clear E s0 of
                     None \<Rightarrow> toast ClearFailed s0
                   | Some s1 \<Rightarrow>
                       (let s2 = s1\<lparr>revoked := revoked s1 @ map snd (objectUrls s1),
                                   objectUrls := []\<rparr>
                        in case loadFonts E s2 of
                             Inr s3 \<Rightarrow> toast Cleared s3
                           | Inl (err, s3) \<Rightarrow> toast ClearFailed s3))
         in s4\<lparr>isProcessing := False\<rparr>))"

text \<open>\<open>updateTag\<close>: the promise of \<open>DB.put\<close> is dropped, so a rejection changes nothing more.\<close>

definition updateTag :: "env \<Rightarrow> jsstring \<Rightarrow> jsstring \<Rightarrow> state \<Rightarrow> state" where
  "updateTag E fn rawTag s =
     (let tag = sanitizeTag rawTag in
      case find (\<lambda>r. fileName (heap s r) = fn) (fonts s) of
        None \<Rightarrow> s
      | Some r \<Rightarrow>
          (let s1 = s\<lparr>heap := (heap s)(r := (heap s r)\<lparr>userTag := Some tag\<rparr>)\<rparr>
           in case DB_put E (heap s1 r) s1 of None \<Rightarrow> s1 | Some s2 \<Rightarrow> s2))"

text \<open>\<open>exportPDF\<close>, as far as it touches the state: the guards, the flag and the font faces.\<close>

fun inject_all :: "env \<Rightarrow> nat list \<Rightarrow> state \<Rightarrow> (error \<times> state) + state" where
  "inject_all E [] s = Inr s"
| "inject_all E (r # rs) s =
     (case injectFontFace E (fileName (heap s r)) (data (heap s r)) s of
        (Inl err, s1) \<Rightarrow> Inl (err, s1)
      | (Inr fontId, s1) \<Rightarrow> inject_all E rs s1)"

definition exportPDF :: "env \<Rightarrow> state \<Rightarrow> (error \<times> state) + state" where
  "exportPDF E s =
     (if search s \<noteq> [] \<and> filtered s = [] then Inr (toast NoExportResults s)
      else if fonts s = [] then Inr (toast NoData s)
      else
        (case inject_all E (if filtered s \<noteq> [] then filtered s else fonts s)
                (s\<lparr>isProcessing := True\<rparr>) of
           Inl (err, s1) \<Rightarrow> Inl (err, s1)
         | Inr s1 \<Rightarrow> Inr (s1\<lparr>isProcessing := False\<rparr>)))"

section \<open>Executions\<close>

text \<open>
  What the user can do to the page, and the states the page can be in. The object store is
  written by this page only, so the first visit finds it empty and a later visit finds what
  the visit before left. Each event runs to its end; a batch in progress is also taken
  apart, since other events can run between its files: \<open>batch_begin\<close> takes the page
  into the loop, \<open>batch_file\<close> is one turn of it on a file of the batch, \<open>batch_end\<close> the
  final callback. \<open>handleUpload\<close> tests the busy flag before it waits for the storage
  estimate and sets it after, so two batches can be in their loops together, and the
  callback of the first clears the flag under the second: a turn of the loop and the
  final callback are therefore possible whatever the flag says.
\<close>

datatype event =
    Search jsstring | Upload "js_file list" | DeleteFont jsstring | ClearAll
  | UpdateTag jsstring jsstring | Export | Reload

definition step :: "env \<Rightarrow> event \<Rightarrow> state \<Rightarrow> state" where
  "step E ev s =
     (case ev of
        Search v \<Rightarrow> settle (setSearch E v s)
      | Upload files \<Rightarrow> handleUpload E files s
      | DeleteFont fn \<Rightarrow> deleteSingleFont E fn s
      | ClearAll \<Rightarrow> clearAll E s
      | UpdateTag fn rawTag \<Rightarrow> updateTag E fn rawTag s
      | Export \<Rightarrow> settle (exportPDF E s)
      | Reload \<Rightarrow> settle (loadFonts E s))"

inductive reachable :: "state \<Rightarrow> bool" where
  first_visit: "reachable (init E [])"
| later_visit: "reachable s \<Longrightarrow> reachable (init E (store s))"
| event: "reachable s \<Longrightarrow> reachable (step E ev s)"
| batch_begin: "reachable s \<Longrightarrow> begin_upload E files s = (Some vs, s1) \<Longrightarrow> reachable s1"
| batch_file:
    "reachable s \<Longrightarrow> validFiles E [f] = [f] \<Longrightarrow> reachable (fst (upload_file E f (s, n)))"
| batch_end: "reachable s \<Longrightarrow> reachable (finish_upload E (s, n))"

section \<open>Notions of the specification\<close>

text \<open>
  The fields of the state that rendering leaves alone: the registry, the search string, the
  busy flag, the object store and the two logs.
\<close>

definition registry_eq :: "state \<Rightarrow> state \<Rightarrow> bool" where
  "registry_eq s s' =
     (db s' = db s \<and> heap s' = heap s \<and> next_ref s' = next_ref s \<and> fonts s' = fonts s \<and>
      filtered s' = filtered s \<and> search s' = search s \<and> isProcessing s' = isProcessing s \<and>
      store s' = store s \<and> toasts s' = toasts s \<and> revoked s' = revoked s)"

text \<open>
  In the words of the specification: a string contains \<open>q\<close> case-insensitively when some
  contiguous part of it is \<open>q\<close> letter by letter up to the case of the letters
  \<open>A\<close> to \<open>Z\<close>; a record matches when its file name or its tag does.
\<close>

definition same_letter :: "16 word \<Rightarrow> 16 word \<Rightarrow> bool" where
  "same_letter c d =
     (c = d \<or> (0x41 \<le> c \<and> c \<le> 0x5A \<and> d = c + 0x20) \<or> (0x41 \<le> d \<and> d \<le> 0x5A \<and> c = d + 0x20))"

definition ci_contains :: "jsstring \<Rightarrow> jsstring \<Rightarrow> bool" where
  "ci_contains s q = list_ex (\<lambda>t. list_all2 same_letter (take (length q) t) q) (suffixes s)"

definition ci_matches :: "jsstring \<Rightarrow> font_record \<Rightarrow> bool" where
  "ci_matches q f =
     (ci_contains (fileName f) q \<or> (case userTag f of None \<Rightarrow> False | Some t \<Rightarrow> ci_contains t q))"

text \<open>
  What \<open>filter\<close> computes instead: both strings are lower-cased as a whole by
  \<open>toLowerCase\<close>, and the lower-cased \<open>q\<close> is looked for as a contiguous part. The two
  notions agree on strings of ASCII characters.
\<close>

definition lowered_contains :: "env \<Rightarrow> jsstring \<Rightarrow> jsstring \<Rightarrow> bool" where
  "lowered_contains E s q = sublist (toLowerCase E q) (toLowerCase E s)"

definition lowered_matches :: "env \<Rightarrow> jsstring \<Rightarrow> font_record \<Rightarrow> bool" where
  "lowered_matches E q f =
     (lowered_contains E (fileName f) q \<or>
      (case userTag f of None \<Rightarrow> False | Some t \<Rightarrow> lowered_contains E t q))"

definition is_ascii :: "jsstring \<Rightarrow> bool" where
  "is_ascii s = list_all (\<lambda>c. c < 0x80) s"

definition ascii_record :: "font_record \<Rightarrow> bool" where
  "ascii_record f = (is_ascii (fileName f) \<and> (case userTag f of None \<Rightarrow> True | Some t \<Rightarrow> is_ascii t))"

definition ascii_page :: "state \<Rightarrow> bool" where
  "ascii_page s = list_all (\<lambda>r. ascii_record (heap s r)) (fonts s)"

text \<open>
  In the words of the specification: the content has at least four bytes and the first
  four, read as a big-endian 32-bit integer, are one of the four magic numbers.
\<close>

definition has_font_magic :: "bytes \<Rightarrow> bool" where
  "has_font_magic bs =
     (4 \<le> length bs \<and>
      unat (bs ! 0) * 2 ^ 24 + unat (bs ! 1) * 2 ^ 16 + unat (bs ! 2) * 2 ^ 8 + unat (bs ! 3)
        \<in> {0x00010000, 0x4F54544F, 0x774F4646, 0x774F4632})"

text \<open>Two states that differ in the notifications shown at most.\<close>

definition modulo_toasts :: "state \<Rightarrow> state \<Rightarrow> bool" where
  "modulo_toasts s s' = (s'\<lparr>toasts := []\<rparr> = s\<lparr>toasts := []\<rparr>)"


section \<open>Concrete inputs\<close>

text \<open>
  A browser in which every request succeeds, two files (a TrueType font and an HTML page
  named as one), and a page that has loaded three stored fonts.
\<close>

definition env0 :: env where
  "env0 =
     \<lparr>unicode_lower = (\<lambda>s. s), confirm_answer = True, db_init_ok = True, getAll_ok = True,
      put_ok = (\<lambda>k. True), delete_ok = (\<lambda>k. True), clear_ok = True, estimate = None,
      css_parses = (\<lambda>r. True), style_element_exists = False\<rparr>"

definition font_file :: js_file where
  "font_file =
     \<lparr>file_name = js ''Foo.ttf'', file_size = 6, file_type = js ''font/ttf'',
      file_bytes = [0x00, 0x01, 0x00, 0x00, 0x00, 0x0C], slice_read_ok = True,
      full_read_ok = True\<rparr>"

definition fake_file :: js_file where
  "fake_file =
     \<lparr>file_name = js ''fake.ttf'', file_size = 6, file_type = [],
      file_bytes = [0x3C, 0x68, 0x74, 0x6D, 0x6C, 0x3E], slice_read_ok = True,
      full_read_ok = True\<rparr>"

definition demo_files :: "js_file list" where
  "demo_files =
     [font_file,
      \<lparr>file_name = js ''bar.otf'', file_size = 4, file_type = [],
       file_bytes = [0x4F, 0x54, 0x54, 0x4F], slice_read_ok = True, full_read_ok = True\<rparr>,
      \<lparr>file_name = js ''baz.woff'', file_size = 4, file_type = [],
       file_bytes = [0x77, 0x4F, 0x46, 0x46], slice_read_ok = True, full_read_ok = True\<rparr>]"

definition demo_record :: "nat \<Rightarrow> font_record" where
  "demo_record a =
     (if a = 0 then
        \<lparr>fileName = js ''Foo.ttf'',
         data = BlobData \<lparr>blob_bytes = [0x00, 0x01, 0x00, 0x00, 0x00, 0x0C],
                          blob_type = js ''font/ttf''\<rparr>,
         userTag = Some []\<rparr>
      else if a = 1 then
        \<lparr>fileName = js ''bar.otf'',
         data = BlobData \<lparr>blob_bytes = [0x4F, 0x54, 0x54, 0x4F],
                          blob_type = js ''application/octet-stream''\<rparr>,
         userTag = Some (js ''Foo'')\<rparr>
      else if a = 2 then
        \<lparr>fileName = js ''baz.woff'',
         data = BlobData \<lparr>blob_bytes = [0x77, 0x4F, 0x46, 0x46],
                          blob_type = js ''application/octet-stream''\<rparr>,
         userTag = Some []\<rparr>
      else \<lparr>fileName = [], data = OtherData, userTag = None\<rparr>)"

text \<open>
  The page after a first visit in which the three files were uploaded and the second font
  was tagged \<open>Foo\<close>.
\<close>

definition demo_state :: state where
  "demo_state =
     \<lparr>db = True, heap = demo_record, next_ref = 3, fonts = [0, 1, 2], filtered = [0, 1, 2],
      search = [],
      loadedFonts = {js ''f_Foo_ttf_Rm9vLnR0'', js ''f_bar_otf_YmFyLm90'', js ''f_baz_woff_YmF6Lndv''},
      objectUrls = [(js ''Foo.ttf'', BlobUrl 0), (js ''bar.otf'', BlobUrl 1), (js ''baz.woff'', BlobUrl 2)],
      renderedMap =
        [(js ''Foo.ttf'', \<lparr>card = 0, preview = 1\<rparr>), (js ''bar.otf'', \<lparr>card = 2, preview = 3\<rparr>),
         (js ''baz.woff'', \<lparr>card = 4, preview = 5\<rparr>)],
      previewNodes = [1, 3, 5], isProcessing = False,
      sheet =
        Some [\<lparr>family = js ''f_Foo_ttf_Rm9vLnR0'', src = BlobUrl 0\<rparr>,
              \<lparr>family = js ''f_bar_otf_YmFyLm90'', src = BlobUrl 1\<rparr>,
              \<lparr>family = js ''f_baz_woff_YmF6Lndv'', src = BlobUrl 2\<rparr>],
      grid = [Card 0, Card 2, Card 4], next_node = 6, next_url = 3,
      store = map demo_record [0, 1, 2], toasts = [Uploaded 3], revoked = []\<rparr>"

section \<open>Invariants\<close>

definition rules_of :: "state \<Rightarrow> css_rule list" where
  "rules_of s = (case sheet s of None \<Rightarrow> [] | Some rules \<Rightarrow> rules)"

text \<open>
  No two rules of the sheet name the same font identifier, and every identifier with a rule
  is in the cache.
\<close>

definition style_inv :: "state \<Rightarrow> bool" where
  "style_inv s =
     (distinct (map family (rules_of s)) \<and> set (map family (rules_of s)) \<subseteq> loadedFonts s)"

text \<open>Every stored row and every record of the registry has a file name.\<close>

definition names_inv :: "state \<Rightarrow> bool" where
  "names_inv s =
     (list_all (\<lambda>r. fileName r \<noteq> []) (store s) \<and>
      list_all (\<lambda>a. fileName (heap s a) \<noteq> []) (fonts s))"

section \<open>Further notions of the specification\<close>



text \<open>
  A step that keeps the invariant of the style sheet and only adds rules; a state whose
  sheet and cache are what rendering builds from an empty sheet and an empty cache.
\<close>

definition style_step :: "state \<Rightarrow> state \<Rightarrow> bool" where
  "style_step s s' = ((style_inv s \<longrightarrow> style_inv s') \<and> prefix (rules_of s) (rules_of s'))"

definition reset_then_rendered :: "env \<Rightarrow> state \<Rightarrow> bool" where
  "reset_then_rendered E s' =
     (\<exists>m. sheet m = Some [] \<and> loadedFonts m = {} \<and>
          sheet s' = sheet (settle (filter_view E m)) \<and>
          loadedFonts s' = loadedFonts (settle (filter_view E m)))"

definition style_ok :: "env \<Rightarrow> state \<Rightarrow> state \<Rightarrow> bool" where
  "style_ok E s s' = (style_step s s' \<or> reset_then_rendered E s')"

text \<open>
  The page shows the filtered view: the file names of the registry are distinct (they are
  the keys of the object store), \<open>filtered\<close> is a selection from \<open>fonts\<close> in order, every
  record of it has its entry in \<open>renderedMap\<close> and no other entry exists, the cards are
  distinct elements, and the grid holds the cards in the order of \<open>filtered\<close>, or the
  placeholder when there is none. A record is shown when it matches the search string;
  \<open>covers\<close> says that no record that matches is missing from the view, \<open>in_sync\<close> that
  the view is exactly the records that match.
\<close>

definition name_of :: "state \<Rightarrow> nat \<Rightarrow> jsstring" where
  "name_of s r = fileName (heap s r)"

definition card_of :: "state \<Rightarrow> nat \<Rightarrow> node" where
  "card_of s r =
     (case map_of (renderedMap s) (fileName (heap s r)) of
        Some e \<Rightarrow> Card (card e)
      | None \<Rightarrow> EmptyState)"

definition view_ok :: "state \<Rightarrow> bool" where
  "view_ok s =
     (distinct (map (name_of s) (fonts s)) \<and>
      filtered s = [r \<leftarrow> fonts s. r \<in> set (filtered s)] \<and>
      distinct (map (\<lambda>kv. card (snd kv)) (renderedMap s)) \<and>
      set (map fst (renderedMap s)) = set (map (name_of s) (filtered s)) \<and>
      grid s = (if filtered s = [] then [EmptyState] else map (card_of s) (filtered s)))"

definition shown :: "env \<Rightarrow> state \<Rightarrow> nat \<Rightarrow> bool" where
  "shown E s r = matches E (toLowerCase E (search s)) (heap s r)"

definition covers :: "env \<Rightarrow> state \<Rightarrow> bool" where
  "covers E s = list_all (\<lambda>r. shown E s r \<longrightarrow> r \<in> set (filtered s)) (fonts s)"

definition in_sync :: "env \<Rightarrow> state \<Rightarrow> bool" where
  "in_sync E s = (filtered s = [r \<leftarrow> fonts s. shown E s r])"

text \<open>The state in which \<open>deleteSingleFont\<close> calls \<open>filter\<close>, after a successful delete.\<close>

definition after_delete :: "jsstring \<Rightarrow> state \<Rightarrow> state" where
  "after_delete fn s =
     s\<lparr>store := store_delete fn (store s),
       fonts := [r \<leftarrow> fonts s. name_of s r \<noteq> fn],
       filtered := [r \<leftarrow> filtered s. name_of s r \<noteq> fn],
       revoked := revoked s @ (case map_of (objectUrls s) fn of Some u \<Rightarrow> [u] | None \<Rightarrow> []),
       objectUrls := [kv \<leftarrow> objectUrls s. fst kv \<noteq> fn],
       grid := (case map_of (renderedMap s) fn of
                  Some e \<Rightarrow> removeAll (Card (card e)) (grid s) | None \<Rightarrow> grid s),
       renderedMap := [kv \<leftarrow> renderedMap s. fst kv \<noteq> fn]\<rparr>"

section \<open>A browser with the lower-casing of the Unicode standard\<close>

text \<open>
  \<open>String.prototype.toLowerCase\<close> is the default case conversion of the Unicode standard.
  On strings of Basic Latin characters and plain Greek capitals, without case-ignorable
  characters, it takes each capital to its small letter, except that the capital sigma
  (U+03A3) goes to the final small sigma (U+03C2) when a cased letter stands before it and
  none after it (the condition \<open>Final_Sigma\<close>), and to the small sigma (U+03C3) otherwise.
  \<open>final_sigma_lower p\<close> is this conversion; \<open>p\<close> says whether a cased letter stands
  before the string. \<open>odos\<close> is the word omicron, delta, omicron, sigma in capitals.
\<close>

definition is_cased :: "16 word \<Rightarrow> bool" where
  "is_cased c =
     ((0x41 \<le> c \<and> c \<le> 0x5A) \<or> (0x61 \<le> c \<and> c \<le> 0x7A) \<or>
      (0x391 \<le> c \<and> c \<le> 0x3A9 \<and> c \<noteq> 0x3A2) \<or> (0x3B1 \<le> c \<and> c \<le> 0x3C9))"

fun final_sigma_lower :: "bool \<Rightarrow> jsstring \<Rightarrow> jsstring" where
  "final_sigma_lower p [] = []"
| "final_sigma_lower p (c # cs) =
     (if c = 0x3A3
      then (if p \<and> \<not> (case cs of [] \<Rightarrow> False | d # ds \<Rightarrow> is_cased d) then 0x3C2 else 0x3C3)
      else if 0x391 \<le> c \<and> c \<le> 0x3A9 \<and> c \<noteq> 0x3A2 then c + 0x20
      else ascii_lower c) # final_sigma_lower (is_cased c) cs"

definition env_greek :: env where
  "env_greek = env0\<lparr>unicode_lower := final_sigma_lower False\<rparr>"

definition odos :: jsstring where
  "odos = [0x39F, 0x394, 0x39F, 0x3A3]"

section \<open>Further concrete states\<close>

text \<open>
  The states the first visit goes through on its way to \<open>demo_state\<close>: the fresh page,
  the registry just reloaded after the batch, and the page before the tag is set.
\<close>

definition untagged_record :: "nat \<Rightarrow> font_record" where
  "untagged_record = demo_record(1 := (demo_record 1)\<lparr>userTag := Some []\<rparr>)"

definition rows0 :: "font_record list" where
  "rows0 = [untagged_record 0, untagged_record (Suc 0), untagged_record 2]"

definition page :: "bool \<Rightarrow> font_record list \<Rightarrow> toast list \<Rightarrow> state" where
  "page busy rows ts =
     \<lparr>db = True, heap = (\<lambda>a. \<lparr>fileName = [], data = OtherData, userTag = None\<rparr>), next_ref = 0,
      fonts = [], filtered = [], search = [], loadedFonts = {}, objectUrls = [],
      renderedMap = [], previewNodes = [], isProcessing = busy, sheet = Some [],
      grid = [EmptyState], next_node = 0, next_url = 0, store = rows, toasts = ts, revoked = []\<rparr>"

definition loaded :: state where
  "loaded =
     \<lparr>db = True, heap = untagged_record, next_ref = 3,
      fonts = [0, 1, 2], filtered = [], search = [], loadedFonts = {}, objectUrls = [],
      renderedMap = [], previewNodes = [], isProcessing = False, sheet = Some [],
      grid = [], next_node = 0, next_url = 0, store = rows0, toasts = [Uploaded 3], revoked = []\<rparr>"

definition untagged :: state where
  "untagged = demo_state\<lparr>heap := untagged_record, store := rows0\<rparr>"

text \<open>
  From \<open>demo_state\<close>: the page after the search for \<open>foo\<close>, then after the tag of
  \<open>bar.otf\<close> is changed from \<open>Foo\<close> to \<open>serif\<close>, then after \<open>Foo.ttf\<close> is deleted.
\<close>

definition searched :: state where
  "searched = demo_state\<lparr>filtered := [0, 1], search := js ''foo'',
      renderedMap := [(js ''Foo.ttf'', \<lparr>card = 0, preview = 1\<rparr>), (js ''bar.otf'', \<lparr>card = 2, preview = 3\<rparr>)],
      previewNodes := [1, 3], grid := [Card 0, Card 2]\<rparr>"

definition stale_record :: "nat \<Rightarrow> font_record" where
  "stale_record = demo_record(1 := (demo_record 1)\<lparr>userTag := Some (js ''serif'')\<rparr>)"

definition stale_state :: state where
  "stale_state = searched\<lparr>heap := stale_record, store := map stale_record [0, 1, 2]\<rparr>"

definition emptied :: state where
  "emptied = stale_state\<lparr>fonts := [1, 2], filtered := [],
      objectUrls := [(js ''bar.otf'', BlobUrl 1), (js ''baz.woff'', BlobUrl 2)],
      renderedMap := [], previewNodes := [], grid := [EmptyState],
      store := map stale_record [1, 2], toasts := [Uploaded 3, Deleted], revoked := [BlobUrl 0]\<rparr>"

section \<open>Strings\<close>

lemma includes_str_sublist: "includes_str s q = sublist q s"
proof (induction s)
  case Nil
  then show ?case by simp
next
  case (Cons c s)
  have "take (length q) (c # s) = q \<longleftrightarrow> prefix q (c # s)"
    by (metis append_eq_conv_conj prefix_def take_is_prefix)
  with Cons show ?case by (simp add: sublist_Cons_right)
qed

lemma endsWith_suffix: "endsWith s e = suffix e s"
proof
  assume "endsWith s e"
  then have "drop (length s - length e) s = e" by (simp add: endsWith_def)
  then show "suffix e s" by (metis suffix_drop)
next
  assume "suffix e s"
  then obtain p where "s = p @ e" by (auto simp: suffix_def)
  then show "endsWith s e" by (simp add: endsWith_def)
qed

lemma toLowerCase_Nil: "toLowerCase E [] = []"
  by (simp add: toLowerCase_def)


section \<open>What rendering leaves alone\<close>

lemma registry_eq_refl: "registry_eq s s"
  by (simp add: registry_eq_def)

lemma registry_eq_trans: "registry_eq s t \<Longrightarrow> registry_eq t u \<Longrightarrow> registry_eq s u"
  by (simp add: registry_eq_def)

lemma getFontUrl_registry: "getFontUrl fn d s = (u, s') \<Longrightarrow> registry_eq s s'"
  by (auto simp: getFontUrl_def registry_eq_def split: option.splits payload.splits)

lemma MasterStyle_insert_registry: "registry_eq s (MasterStyle_insert E r s)"
  by (auto simp: MasterStyle_insert_def registry_eq_def split: option.splits)

lemma injectFontFace_registry: "injectFontFace E fn d s = (res, s') \<Longrightarrow> registry_eq s s'"
  unfolding injectFontFace_def
  apply (auto split: option.splits if_splits prod.splits simp: Let_def registry_eq_refl dest!: getFontUrl_registry)
    apply (auto simp: registry_eq_def MasterStyle_insert_def split: option.splits)
  done

lemma place_registry: "registry_eq s (place i e s)"
  by (auto simp: place_def registry_eq_def Let_def)

lemma render_each_registry: "registry_eq s (settle (render_each E rs i s))"
proof (induction rs arbitrary: i s)
  case Nil
  then show ?case by (simp add: settle_def registry_eq_refl)
next
  case (Cons r rs)
  show ?case
  proof (cases "map_of (renderedMap s) (fileName (heap s r))")
    case (Some e)
    then show ?thesis
      using Cons.IH [where i="Suc i" and s="place i e s"] place_registry [of s i e]
      by (auto simp: Let_def intro: registry_eq_trans)
  next
    case None
    obtain res s1 where inj: "injectFontFace E (fileName (heap s r)) (data (heap s r)) s = (res, s1)"
      by (cases "injectFontFace E (fileName (heap s r)) (data (heap s r)) s")
    have r1: "registry_eq s s1" using inj by (rule injectFontFace_registry)
    show ?thesis
    proof (cases res)
      case (Inl err)
      with None inj r1 show ?thesis by (simp add: Let_def settle_def)
    next
      case (Inr fid)
      show ?thesis
      proof (cases fid)
        case None': None
        with None inj Inr r1 Cons.IH [where i="Suc i" and s=s1] show ?thesis
          by (auto simp: Let_def intro: registry_eq_trans)
      next
        case (Some fontId)
        let ?e = "\<lparr>card = next_node s1, preview = Suc (next_node s1)\<rparr>"
        let ?s2 = "s1\<lparr>next_node := Suc (Suc (next_node s1)),
                       renderedMap := renderedMap s1 @ [(fileName (heap s r), ?e)]\<rparr>"
        have "registry_eq s1 ?s2" by (simp add: registry_eq_def)
        then have "registry_eq s (place i ?e ?s2)"
          using r1 place_registry [of ?s2 i ?e] by (blast intro: registry_eq_trans)
        with None inj Inr Some Cons.IH [where i="Suc i" and s="place i ?e ?s2"] show ?thesis
          by (auto simp: Let_def intro: registry_eq_trans)
      qed
    qed
  qed
qed

lemma render_registry: "registry_eq s (settle (render E s))"
proof -
  have "registry_eq s s3 \<Longrightarrow> registry_eq s (settle (render_each E rs 0 s3))" for s3 rs
    using render_each_registry [of s3 E rs 0] by (blast intro: registry_eq_trans)
  then show ?thesis
    unfolding render_def Let_def by (auto simp: registry_eq_def)
qed

lemma filter_view_registry:
  "registry_eq (s\<lparr>filtered := [r \<leftarrow> fonts s. matches E (toLowerCase E (search s)) (heap s r)]\<rparr>)
     (settle (filter_view E s))"
  unfolding filter_view_def Let_def by (rule render_registry)

lemma filter_view_filtered:
  "filtered (settle (filter_view E s)) = [r \<leftarrow> fonts s. matches E (toLowerCase E (search s)) (heap s r)]"
  using filter_view_registry [where s=s and E=E] by (simp add: registry_eq_def)



section \<open>The concrete page is a page of the program\<close>

lemma untagged_record_simps:
  "untagged_record 0 =
     \<lparr>fileName = js ''Foo.ttf'',
      data = BlobData \<lparr>blob_bytes = [0x00, 0x01, 0x00, 0x00, 0x00, 0x0C], blob_type = js ''font/ttf''\<rparr>,
      userTag = Some []\<rparr>"
  "untagged_record (Suc 0) =
     \<lparr>fileName = js ''bar.otf'',
      data = BlobData \<lparr>blob_bytes = [0x4F, 0x54, 0x54, 0x4F], blob_type = js ''application/octet-stream''\<rparr>,
      userTag = Some []\<rparr>"
  "untagged_record 2 =
     \<lparr>fileName = js ''baz.woff'',
      data = BlobData \<lparr>blob_bytes = [0x77, 0x4F, 0x46, 0x46], blob_type = js ''application/octet-stream''\<rparr>,
      userTag = Some []\<rparr>"
  by (simp_all add: untagged_record_def demo_record_def)

lemma rows0_sorted: "store_getAll rows0 = rows0"
  by (simp add: store_getAll_def rows0_def untagged_record_simps js_def)

lemma init_empty: "init env0 [] = page False [] []"
  by (simp add: init_def MasterStyle_init_def env0_def initial_def loadFonts_def DB_getAll_def
      store_getAll_def alloc_def MasterStyle_clear_def filter_view_def render_def settle_def Let_def
      page_def)

lemma demo_begin: "begin_upload env0 demo_files (page False [] []) = (Some demo_files, page True [] [])"
  by (simp add: begin_upload_def validFiles_def validExtensions_def demo_files_def font_file_def
      endsWith_def toLowerCase_def ascii_lower_def js_def MAX_FONTS_def env0_def page_def)

lemma demo_loop: "upload_files env0 demo_files (page True [] [], 0) = (page True rows0 [], 3)"
  by (simp add: demo_files_def font_file_def upload_file_def checkSignature_def getUint32_def
      magic_numbers_def MAX_FILE_SIZE_def DB_put_def env0_def page_def Let_def js_def
      rows0_def untagged_record_simps)

lemma demo_alloc: "loadFonts env0 (page False rows0 [Uploaded 3]) = filter_view env0 loaded"
proof -
  let ?P = "page False rows0 [Uploaded 3]"
  have h: "(\<lambda>a. if next_ref ?P \<le> a \<and> a < next_ref ?P + length rows0
                then rows0 ! (a - next_ref ?P) else heap ?P a) = untagged_record"
  proof (rule ext)
    fix a :: nat
    consider "a = 0" | "a = 1" | "a = 2" | "3 \<le> a" by linarith
    then show "(if next_ref ?P \<le> a \<and> a < next_ref ?P + length rows0
                then rows0 ! (a - next_ref ?P) else heap ?P a) = untagged_record a"
      by cases (simp_all add: page_def rows0_def untagged_record_def demo_record_def)
  qed
  have "alloc rows0 ?P = ([0, 1, 2], ?P\<lparr>heap := untagged_record, next_ref := 3\<rparr>)"
    by (simp only: alloc_def h) (simp add: page_def rows0_def upt_rec)
  then show ?thesis
    by (simp add: loadFonts_def DB_getAll_def rows0_sorted env0_def MasterStyle_clear_def Let_def
        page_def loaded_def)
qed

lemma untagged_ids:
  "safeFontId (js ''Foo.ttf'') (data (untagged_record 0)) = Some (js ''f_Foo_ttf_Rm9vLnR0'')"
  "safeFontId (js ''bar.otf'') (data (untagged_record (Suc 0))) = Some (js ''f_bar_otf_YmFyLm90'')"
  "safeFontId (js ''baz.woff'') (data (untagged_record 2)) = Some (js ''f_baz_woff_YmF6Lndv'')"
  by (simp_all add: safeFontId_def untagged_record_simps js_def dec.simps encode_utf8_def utf8_def
      is_high_surrogate_def is_low_surrogate_def b64_def is_alnum_def)

lemma demo_filter: "filter_view env0 loaded = Inr untagged"
proof -
  have names: "fileName (untagged_record 0) = js ''Foo.ttf''"
    "fileName (untagged_record (Suc 0)) = js ''bar.otf''"
    "fileName (untagged_record 2) = js ''baz.woff''"
    by (simp_all add: untagged_record_simps)
  have f: "[r \<leftarrow> fonts loaded. matches env0 (toLowerCase env0 (search loaded)) (heap loaded r)] = [0, 1, 2]"
    by (simp add: loaded_def matches_def toLowerCase_def untagged_record_simps js_def)
  have r: "render env0 (loaded\<lparr>filtered := [0, 1, 2]\<rparr>) =
      render_each env0 [0, 1, 2] 0 (loaded\<lparr>filtered := [0, 1, 2]\<rparr>)"
    by (simp add: render_def loaded_def Let_def)
  have "render_each env0 [0, 1, 2] 0 (loaded\<lparr>filtered := [0, 1, 2]\<rparr>) = Inr untagged"
    apply (simp add: loaded_def Let_def untagged_record_simps js_def injectFontFace_def
        untagged_ids [unfolded untagged_record_simps js_def, simplified]
        getFontUrl_def MasterStyle_insert_def env0_def place_def appendChild_def insertBefore_def)
    apply (simp add: untagged_def demo_state_def js_def)
    apply blast
    done
  with f r show ?thesis by (simp add: filter_view_def Let_def)
qed

lemma demo_upload: "step env0 (Upload demo_files) (init env0 []) = untagged"
proof -
  have "finish_upload env0 (page True rows0 [], 3) = settle (loadFonts env0 (page False rows0 [Uploaded 3]))"
    by (simp add: finish_upload_def Let_def toast_def page_def)
  then show ?thesis
    by (simp add: step_def handleUpload_def init_empty demo_begin demo_loop demo_alloc demo_filter
        settle_def)
qed

lemma demo_tagged: "step env0 (UpdateTag (js ''bar.otf'') (js ''Foo'')) untagged = demo_state"
proof -
  have h: "untagged_record(Suc 0 := (untagged_record (Suc 0))\<lparr>userTag := Some (js ''Foo'')\<rparr>) = demo_record"
    by (rule ext) (simp add: untagged_record_def demo_record_def)
  have t: "sanitizeTag (js ''Foo'') = js ''Foo''"
    by (simp add: sanitizeTag_def trim_def is_js_whitespace_def stripped_class_def js_def)
  have f: "find (\<lambda>r. fileName (heap untagged r) = js ''bar.otf'') (fonts untagged) = Some (Suc 0)"
    by (simp add: untagged_def demo_state_def untagged_record_simps js_def)
  show ?thesis
    apply (simp add: step_def updateTag_def f t Let_def DB_put_def)
    apply (simp add: untagged_def demo_state_def env0_def rows0_def untagged_record_simps js_def)
    apply (simp add: fun_eq_iff untagged_record_def demo_record_def js_def)
    done
qed

lemma demo_state_reachable: "reachable demo_state"
proof -
  have "reachable (init env0 [])" by (rule reachable.first_visit)
  then have "reachable (step env0 (Upload demo_files) (init env0 []))" by (rule reachable.event)
  then have "reachable (step env0 (UpdateTag (js ''bar.otf'') (js ''Foo'')) untagged)"
    unfolding demo_upload by (rule reachable.event)
  then show ?thesis by (simp only: demo_tagged)
qed

section \<open>The filtered view\<close>

lemma includes_lowered:
  assumes "fileName f \<noteq> []"
  shows "matches E (toLowerCase E q) f = lowered_matches E q f"
proof (cases "userTag f")
  case None
  with assms show ?thesis
    by (simp add: matches_def lowered_matches_def lowered_contains_def includes_str_sublist)
next
  case (Some t)
  show ?thesis
  proof (cases "t = []")
    case True
    have "sublist (toLowerCase E q) [] \<Longrightarrow> sublist (toLowerCase E q) (toLowerCase E (fileName f))"
      by simp
    with assms Some True show ?thesis
      by (auto simp: matches_def lowered_matches_def lowered_contains_def includes_str_sublist
          toLowerCase_Nil)
  next
    case False
    with assms Some show ?thesis
      by (simp add: matches_def lowered_matches_def lowered_contains_def includes_str_sublist)
  qed
qed

lemma ci_contains_iff:
  "ci_contains s q \<longleftrightarrow> (\<exists>t. sublist t s \<and> list_all2 same_letter t q)"
proof
  assume "ci_contains s q"
  then obtain u where u: "suffix u s" "list_all2 same_letter (take (length q) u) q"
    by (auto simp: ci_contains_def list_ex_iff)
  have "prefix (take (length q) u) u" by (rule take_is_prefix)
  with u(1) have "sublist (take (length q) u) s"
    by (meson prefix_imp_sublist sublist_order.order_trans suffix_imp_sublist)
  with u(2) show "\<exists>t. sublist t s \<and> list_all2 same_letter t q" by blast
next
  assume "\<exists>t. sublist t s \<and> list_all2 same_letter t q"
  then obtain t ps ss where t: "s = ps @ t @ ss" "list_all2 same_letter t q"
    by (auto simp: sublist_def)
  from t(2) have "length t = length q" by (rule list_all2_lengthD)
  with t(2) have "list_all2 same_letter (take (length q) (t @ ss)) q" by simp
  moreover have "t @ ss \<in> set (suffixes s)" using t(1) by (simp add: suffix_def)
  ultimately show "ci_contains s q"
    unfolding ci_contains_def list_ex_iff by blast
qed

lemma same_letter_lower: "ascii_lower c = ascii_lower d \<longleftrightarrow> same_letter c d"
  unfolding ascii_lower_def same_letter_def
  by (auto; unat_arith)

lemma sublist_map_iff:
  "sublist xs (map f ys) \<longleftrightarrow> (\<exists>t. sublist t ys \<and> xs = map f t)"
proof
  assume "sublist xs (map f ys)"
  then obtain ps ss where "map f ys = ps @ xs @ ss" by (auto simp: sublist_def)
  then obtain a vs where 1: "ys = a @ vs" "xs @ ss = map f vs"
    by (auto simp: map_eq_append_conv)
  from 1(2) obtain b c where "vs = b @ c" "xs = map f b"
    by (auto simp: append_eq_map_conv)
  with 1(1) have "ys = a @ b @ c" "xs = map f b" by simp_all
  then show "\<exists>t. sublist t ys \<and> xs = map f t" by (auto simp: sublist_def)
next
  assume "\<exists>t. sublist t ys \<and> xs = map f t"
  then obtain t ps ss where "ys = ps @ t @ ss" "xs = map f t" by (auto simp: sublist_def)
  then have "map f ys = map f ps @ xs @ map f ss" by simp
  then show "sublist xs (map f ys)" unfolding sublist_def by blast
qed

lemma map_lower_eq: "map ascii_lower q = map ascii_lower t \<longleftrightarrow> list_all2 same_letter t q"
proof -
  have "map ascii_lower q = map ascii_lower t \<longleftrightarrow> list_all2 (=) (map ascii_lower t) (map ascii_lower q)"
    by (auto simp: list.rel_eq)
  also have "\<dots> \<longleftrightarrow> list_all2 (\<lambda>a b. ascii_lower a = ascii_lower b) t q"
    by (simp add: list.rel_map)
  finally show ?thesis by (simp add: same_letter_lower)
qed

lemma lowered_contains_ascii:
  assumes "is_ascii s" and "is_ascii q"
  shows "lowered_contains E s q = ci_contains s q"
  using assms
  by (simp add: lowered_contains_def toLowerCase_def is_ascii_def sublist_map_iff map_lower_eq
      ci_contains_iff)

lemma lowered_matches_ascii:
  assumes "ascii_record f" and "is_ascii q"
  shows "lowered_matches E q f = ci_matches q f"
  using assms
  by (auto simp: lowered_matches_def ci_matches_def ascii_record_def lowered_contains_ascii
      split: option.splits)

text \<open>Every record the page can hold has a file name.\<close>

lemma names_inv_registry: "registry_eq s s' \<Longrightarrow> names_inv s \<Longrightarrow> names_inv s'"
  by (simp add: registry_eq_def names_inv_def)

lemma filter_view_names: "names_inv s \<Longrightarrow> names_inv (settle (filter_view E s))"
proof -
  assume "names_inv s"
  then have "names_inv (s\<lparr>filtered := [r \<leftarrow> fonts s. matches E (toLowerCase E (search s)) (heap s r)]\<rparr>)"
    by (simp add: names_inv_def)
  with filter_view_registry show ?thesis by (rule names_inv_registry)
qed

lemma loadFonts_names:
  assumes "list_all (\<lambda>r. fileName r \<noteq> []) (store s)"
  shows "names_inv (settle (loadFonts E s)) \<or> settle (loadFonts E s) = s"
proof (cases "DB_getAll E s")
  case None
  then show ?thesis by (simp add: loadFonts_def settle_def)
next
  case (Some recs)
  have recs: "list_all (\<lambda>r. fileName r \<noteq> []) recs"
    using Some assms by (auto simp: DB_getAll_def store_getAll_def list_all_iff split: if_splits)
  obtain refs s0 where a: "alloc recs s = (refs, s0)" by (cases "alloc recs s")
  let ?s1 = "s0\<lparr>fonts := refs, grid := [], renderedMap := [], previewNodes := []\<rparr>"
  have st: "store ?s1 = store s" using a by (auto simp: alloc_def)
  have "fileName (heap ?s1 x) \<noteq> []" if "x \<in> set (fonts ?s1)" for x
  proof -
    from that a have x: "next_ref s \<le> x" "x < next_ref s + length recs" and h: "heap ?s1 x = recs ! (x - next_ref s)"
      by (auto simp: alloc_def)
    then have "recs ! (x - next_ref s) \<in> set recs" by simp
    with recs h show ?thesis by (simp add: list_all_iff)
  qed
  then have n1: "names_inv ?s1" using assms st by (simp add: names_inv_def list_all_iff)
  show ?thesis
  proof (cases "sheet ?s1")
    case None
    with Some a n1 show ?thesis
      by (simp add: loadFonts_def Let_def MasterStyle_clear_def settle_def)
  next
    case (Some rules)
    have "names_inv (?s1\<lparr>sheet := Some [], loadedFonts := {}\<rparr>)"
      using n1 by (simp add: names_inv_def)
    then have "names_inv (settle (filter_view E (?s1\<lparr>sheet := Some [], loadedFonts := {}\<rparr>)))"
      by (rule filter_view_names)
    with Some \<open>DB_getAll E s = Some recs\<close> a show ?thesis
      by (simp add: loadFonts_def Let_def MasterStyle_clear_def)
  qed
qed

lemma loadFonts_names_inv: "names_inv s \<Longrightarrow> names_inv (settle (loadFonts E s))"
  using loadFonts_names [of s E] by (auto simp: names_inv_def)

lemma validFiles_named:
  assumes "f \<in> set (validFiles E files)"
  shows "file_name f \<noteq> []"
proof
  assume "file_name f = []"
  with assms show False
    by (auto simp: validFiles_def validExtensions_def list_ex_iff endsWith_def toLowerCase_Nil js_def)
qed

lemma list_all_store_put:
  "fileName r \<noteq> [] \<Longrightarrow> list_all (\<lambda>r. fileName r \<noteq> []) rows \<Longrightarrow>
   list_all (\<lambda>r. fileName r \<noteq> []) (store_put r rows)"
  by (induction rows) auto

lemma upload_file_names:
  assumes "names_inv s" and "file_name f \<noteq> []"
  shows "names_inv (fst (upload_file E f (s, n)))"
  using assms
  by (auto simp: upload_file_def toast_def DB_put_def Let_def names_inv_def list_all_store_put
      split: promise.splits option.splits)

lemma upload_files_names:
  "names_inv s \<Longrightarrow> \<forall>f \<in> set fs. file_name f \<noteq> [] \<Longrightarrow> names_inv (fst (upload_files E fs (s, n)))"
proof (induction fs arbitrary: s n)
  case Nil
  then show ?case by simp
next
  case (Cons f fs)
  obtain t m where 1: "upload_file E f (s, n) = (t, m)" by (cases "upload_file E f (s, n)")
  with upload_file_names [of s f E n] Cons.prems have "names_inv t" by simp
  with Cons.IH [of t m] Cons.prems 1 show ?case by simp
qed

lemma finish_upload_names: "names_inv s \<Longrightarrow> names_inv (finish_upload E (s, n))"
proof -
  assume "names_inv s"
  then have "names_inv (if n > 0 then toast (Uploaded n) (s\<lparr>isProcessing := False\<rparr>) else s\<lparr>isProcessing := False\<rparr>)"
    by (simp add: names_inv_def toast_def)
  then show ?thesis
    unfolding finish_upload_def Let_def by (simp add: loadFonts_names_inv)
qed

lemma begin_upload_names:
  "names_inv s \<Longrightarrow> names_inv (snd (begin_upload E files s)) \<and>
   (\<forall>vs. fst (begin_upload E files s) = Some vs \<longrightarrow> vs = validFiles E files)"
  by (auto simp: begin_upload_def Let_def toast_def names_inv_def split: option.splits)

lemma handleUpload_names: "names_inv s \<Longrightarrow> names_inv (handleUpload E files s)"
proof -
  assume inv: "names_inv s"
  obtain ov s1 where b: "begin_upload E files s = (ov, s1)" by (cases "begin_upload E files s")
  from begin_upload_names [OF inv, of E files] b
  have s1: "names_inv s1" and vs: "\<And>vs. ov = Some vs \<Longrightarrow> vs = validFiles E files" by simp_all
  show ?thesis
  proof (cases ov)
    case None
    with b s1 show ?thesis by (simp add: handleUpload_def)
  next
    case (Some vs)
    with vs have "\<forall>f \<in> set vs. file_name f \<noteq> []" by (auto dest: validFiles_named)
    with s1 have "names_inv (fst (upload_files E vs (s1, 0)))" by (rule upload_files_names)
    then have "names_inv (finish_upload E (upload_files E vs (s1, 0)))"
      by (cases "upload_files E vs (s1, 0)") (simp add: finish_upload_names)
    with b Some show ?thesis by (simp add: handleUpload_def)
  qed
qed

lemma deleteSingleFont_names: "names_inv s \<Longrightarrow> names_inv (deleteSingleFont E fn s)"
proof (cases "confirm_answer E \<and> DB_delete E fn s \<noteq> None")
  case False
  assume "names_inv s"
  with False show ?thesis by (auto simp: deleteSingleFont_def toast_def names_inv_def)
next
  case True
  assume inv: "names_inv s"
  from True obtain s0 where d: "DB_delete E fn s = Some s0" by auto
  then have s0: "names_inv s0"
    using inv by (auto simp: DB_delete_def store_delete_def names_inv_def list_all_iff split: if_splits)
  define s1 where "s1 = s0\<lparr>fonts := [r \<leftarrow> fonts s0. fileName (heap s0 r) \<noteq> fn],
                         filtered := [r \<leftarrow> filtered s0. fileName (heap s0 r) \<noteq> fn]\<rparr>"
  define s2 where "s2 = (case map_of (objectUrls s1) fn of
                          Some u \<Rightarrow> s1\<lparr>revoked := revoked s1 @ [u],
                                       objectUrls := [kv \<leftarrow> objectUrls s1. fst kv \<noteq> fn]\<rparr>
                        | None \<Rightarrow> s1)"
  define s3 where "s3 = (case map_of (renderedMap s2) fn of
                          Some e \<Rightarrow> s2\<lparr>grid := removeAll (Card (card e)) (grid s2),
                                       renderedMap := [kv \<leftarrow> renderedMap s2. fst kv \<noteq> fn]\<rparr>
                        | None \<Rightarrow> s2)"
  have s3: "names_inv s3"
    using s0 by (auto simp: s3_def s2_def s1_def names_inv_def list_all_iff split: option.splits)
  have res: "deleteSingleFont E fn s =
      (case filter_view E s3 of Inr s4 \<Rightarrow> toast Deleted s4 | Inl (err, s4) \<Rightarrow> toast DeleteFailed s4)"
    unfolding s3_def s2_def s1_def deleteSingleFont_def Let_def
    using True by (simp only: d simp_thms if_False option.case)
  have "names_inv (settle (filter_view E s3))" using s3 by (rule filter_view_names)
  then show ?thesis
    unfolding res by (auto simp: settle_def toast_def names_inv_def split: sum.splits)
qed

lemma clearAll_names: "names_inv s \<Longrightarrow> names_inv (clearAll E s)"
proof (cases "confirm_answer E \<and> \<not> isProcessing s")
  case False
  assume "names_inv s"
  with False show ?thesis by (auto simp: clearAll_def)
next
  case True
  assume inv: "names_inv s"
  let ?s0 = "s\<lparr>isProcessing := True\<rparr>"
  show ?thesis
  proof (cases "DB_clear E ?s0")
    case None
    with True inv show ?thesis
      by (auto simp: clearAll_def Let_def toast_def names_inv_def)
  next
    case (Some s1)
    then have "names_inv s1" using inv
      by (auto simp: DB_clear_def names_inv_def split: if_splits)
    then have "names_inv (s1\<lparr>revoked := revoked s1 @ map snd (objectUrls s1), objectUrls := []\<rparr>)"
      by (simp add: names_inv_def)
    then have "names_inv (settle (loadFonts E (s1\<lparr>revoked := revoked s1 @ map snd (objectUrls s1), objectUrls := []\<rparr>)))"
      by (rule loadFonts_names_inv)
    with True Some show ?thesis
      by (auto simp: clearAll_def Let_def settle_def toast_def names_inv_def split: sum.splits)
  qed
qed

lemma updateTag_names: "names_inv s \<Longrightarrow> names_inv (updateTag E fn rawTag s)"
proof (cases "find (\<lambda>r. fileName (heap s r) = fn) (fonts s)")
  case None
  assume "names_inv s"
  with None show ?thesis by (simp add: updateTag_def)
next
  case (Some r)
  assume inv: "names_inv s"
  from Some have r: "r \<in> set (fonts s)" "fileName (heap s r) = fn"
    by (auto simp: find_Some_iff)
  with inv have fn: "fn \<noteq> []" by (auto simp: names_inv_def list_all_iff)
  let ?s1 = "s\<lparr>heap := (heap s)(r := (heap s r)\<lparr>userTag := Some (sanitizeTag rawTag)\<rparr>)\<rparr>"
  have 1: "names_inv ?s1" using inv by (auto simp: names_inv_def list_all_iff)
  have "names_inv (?s1\<lparr>store := store_put (heap ?s1 r) (store ?s1)\<rparr>)"
    using 1 r fn by (auto simp: names_inv_def intro: list_all_store_put)
  with 1 Some show ?thesis
    by (auto simp: updateTag_def DB_put_def Let_def)
qed

lemma inject_all_registry: "registry_eq s (settle (inject_all E rs s))"
proof (induction rs arbitrary: s)
  case Nil
  then show ?case by (simp add: settle_def registry_eq_refl)
next
  case (Cons r rs)
  obtain res s1 where inj: "injectFontFace E (fileName (heap s r)) (data (heap s r)) s = (res, s1)"
    by (cases "injectFontFace E (fileName (heap s r)) (data (heap s r)) s")
  have r1: "registry_eq s s1" using inj by (rule injectFontFace_registry)
  show ?case
  proof (cases res)
    case (Inl err)
    with inj r1 show ?thesis by (simp add: settle_def)
  next
    case (Inr fid)
    with inj r1 Cons.IH [of s1] show ?thesis by (auto intro: registry_eq_trans)
  qed
qed

lemma exportPDF_names: "names_inv s \<Longrightarrow> names_inv (settle (exportPDF E s))"
proof -
  assume inv: "names_inv s"
  let ?l = "if filtered s \<noteq> [] then filtered s else fonts s"
  let ?s = "s\<lparr>isProcessing := True\<rparr>"
  have "names_inv ?s" using inv by (simp add: names_inv_def)
  with inject_all_registry have 2: "names_inv (settle (inject_all E ?l ?s))"
    by (rule names_inv_registry)
  then have 3: "names_inv ((settle (inject_all E ?l ?s))\<lparr>isProcessing := False\<rparr>)"
    by (simp add: names_inv_def)
  show ?thesis
  proof (cases "(search s \<noteq> [] \<and> filtered s = []) \<or> fonts s = []")
    case True
    with inv show ?thesis
      by (auto simp: exportPDF_def settle_def toast_def names_inv_def)
  next
    case False
    show ?thesis
    proof (cases "inject_all E ?l ?s")
      case (Inl a)
      with False 2 show ?thesis
        by (cases a) (auto simp: exportPDF_def settle_def)
    next
      case (Inr b)
      with False 3 show ?thesis
        by (auto simp: exportPDF_def settle_def)
    qed
  qed
qed

lemma setSearch_names: "names_inv s \<Longrightarrow> names_inv (settle (setSearch E v s))"
proof -
  assume "names_inv s"
  then have "names_inv (s\<lparr>search := v\<rparr>)" by (simp add: names_inv_def)
  then show ?thesis unfolding setSearch_def by (rule filter_view_names)
qed

lemma step_names: "names_inv s \<Longrightarrow> names_inv (step E ev s)"
  by (cases ev)
    (simp_all add: step_def setSearch_names handleUpload_names deleteSingleFont_names
      clearAll_names updateTag_names exportPDF_names loadFonts_names_inv)

lemma init_names:
  assumes "list_all (\<lambda>r. fileName r \<noteq> []) rows"
  shows "names_inv (init E rows)"
proof -
  let ?s1 = "MasterStyle_init E (initial\<lparr>store := rows\<rparr>)"
  have 1: "names_inv ?s1"
    using assms by (simp add: MasterStyle_init_def initial_def names_inv_def)
  then have "names_inv (?s1\<lparr>db := True\<rparr>)" by (simp add: names_inv_def)
  then have "names_inv (settle (loadFonts E (?s1\<lparr>db := True\<rparr>)))" by (rule loadFonts_names_inv)
  moreover have "names_inv (toast LoadFailed ?s1)" using 1 by (simp add: names_inv_def toast_def)
  ultimately show ?thesis by (simp add: init_def Let_def)
qed

lemma reachable_names_inv: "reachable s \<Longrightarrow> names_inv s"
proof (induction rule: reachable.induct)
  case (first_visit E)
  show ?case by (rule init_names) simp
next
  case (later_visit s E)
  then show ?case by (intro init_names) (simp add: names_inv_def)
next
  case (event s E ev)
  then show ?case by (simp add: step_names)
next
  case (batch_begin s E files vs s1)
  with begin_upload_names [of s E files] show ?case by simp
next
  case (batch_file s E f n)
  from batch_file.hyps(2) have "f \<in> set (validFiles E [f])" by simp
  then have "file_name f \<noteq> []" by (rule validFiles_named)
  with batch_file.IH show ?case by (rule upload_file_names)
next
  case (batch_end s E n)
  then show ?case by (simp add: finish_upload_names)
qed

text \<open>
  C1, as amended. On every page the program can reach, \<open>filter\<close> with the search string
  \<open>q\<close> makes \<open>filtered\<close> exactly the subsequence of \<open>fonts\<close>, in the order of \<open>fonts\<close>,
  of the records whose lower-cased file name or lower-cased tag has the lower-cased \<open>q\<close>
  as a contiguous part, each string lower-cased as a whole by \<open>toLowerCase\<close>: nothing is
  sorted, duplicated or added, and \<open>fonts\<close> and the records stay as they are. When \<open>q\<close>
  and the file names and tags of the page are ASCII, these are exactly the records whose
  file name or tag contains \<open>q\<close> case-insensitively.
\<close>

theorem filter_exact_subsequence:
  assumes "reachable s"
  shows "filtered (settle (setSearch E q s)) = [r \<leftarrow> fonts s. lowered_matches E q (heap s r)] \<and>
         fonts (settle (setSearch E q s)) = fonts s \<and>
         heap (settle (setSearch E q s)) = heap s \<and>
         subseq (filtered (settle (setSearch E q s))) (fonts s) \<and>
         (is_ascii q \<and> ascii_page s \<longrightarrow>
            filtered (settle (setSearch E q s)) = [r \<leftarrow> fonts s. ci_matches q (heap s r)])"
proof -
  from assms have "names_inv s" by (rule reachable_names_inv)
  then have n: "\<forall>r \<in> set (fonts s). fileName (heap s r) \<noteq> []"
    by (simp add: names_inv_def list_all_iff)
  let ?s = "s\<lparr>search := q\<rparr>"
  have f: "filtered (settle (setSearch E q s)) = [r \<leftarrow> fonts s. matches E (toLowerCase E q) (heap s r)]"
    using filter_view_filtered [where E = E and s = "?s"] by (simp add: setSearch_def)
  have "[r \<leftarrow> fonts s. matches E (toLowerCase E q) (heap s r)] = [r \<leftarrow> fonts s. lowered_matches E q (heap s r)]"
    using n by (intro filter_cong refl) (simp add: includes_lowered)
  with f have 1: "filtered (settle (setSearch E q s)) = [r \<leftarrow> fonts s. lowered_matches E q (heap s r)]"
    by simp
  have 2: "fonts (settle (setSearch E q s)) = fonts s \<and> heap (settle (setSearch E q s)) = heap s"
    using filter_view_registry [where s = "?s" and E = E] by (simp add: setSearch_def registry_eq_def)
  have 3: "[r \<leftarrow> fonts s. lowered_matches E q (heap s r)] = [r \<leftarrow> fonts s. ci_matches q (heap s r)]"
    if "is_ascii q" "ascii_page s"
    using that by (intro filter_cong refl) (simp add: ascii_page_def list_all_iff lowered_matches_ascii)
  from 1 2 3 show ?thesis by simp
qed

theorem filter_exact_subsequence_witness:
  "reachable demo_state \<and> is_ascii (js ''FOO'') \<and> ascii_page demo_state \<and>
   ci_matches (js ''FOO'') (heap demo_state 0) \<and> ci_matches (js ''FOO'') (heap demo_state 1) \<and>
   \<not> ci_matches (js ''FOO'') (heap demo_state 2) \<and>
   fonts demo_state = [0, 1, 2] \<and>
   filtered (settle (setSearch env0 (js ''FOO'') demo_state)) = [0, 1]"
proof -
  have a: "is_ascii (js ''FOO'')" "ascii_page demo_state"
    by (simp_all add: is_ascii_def ascii_page_def ascii_record_def demo_state_def demo_record_def js_def)
  have m: "ci_matches (js ''FOO'') (heap demo_state 0)" "ci_matches (js ''FOO'') (heap demo_state 1)"
    "\<not> ci_matches (js ''FOO'') (heap demo_state 2)"
    by (simp_all add: ci_matches_def ci_contains_def same_letter_def demo_state_def demo_record_def js_def)
  have l: "fonts demo_state = [0, 1, 2]" by (simp add: demo_state_def)
  have "is_ascii (js ''FOO'') \<and> ascii_page demo_state \<longrightarrow>
      filtered (settle (setSearch env0 (js ''FOO'') demo_state)) =
        [r \<leftarrow> fonts demo_state. ci_matches (js ''FOO'') (heap demo_state r)]"
    using filter_exact_subsequence [OF demo_state_reachable, of env0 "js ''FOO''"] by blast
  with a have "filtered (settle (setSearch env0 (js ''FOO'') demo_state)) =
        [r \<leftarrow> fonts demo_state. ci_matches (js ''FOO'') (heap demo_state r)]"
    by blast
  then have "filtered (settle (setSearch env0 (js ''FOO'') demo_state)) = [0, 1]"
    unfolding l using m by simp
  with demo_state_reachable a m l show ?thesis by simp
qed

lemma odos_tagged:
  "updateTag env_greek (js ''bar.otf'') odos demo_state =
     demo_state\<lparr>heap := (heap demo_state)(1 := (demo_record 1)\<lparr>userTag := Some odos\<rparr>),
                store := [demo_record 0, (demo_record 1)\<lparr>userTag := Some odos\<rparr>, demo_record 2]\<rparr>"
proof -
  have t: "sanitizeTag odos = odos"
    by (simp add: sanitizeTag_def trim_def is_js_whitespace_def stripped_class_def odos_def)
  have f: "find (\<lambda>r. fileName (heap demo_state r) = js ''bar.otf'') (fonts demo_state) = Some 1"
    by (simp add: demo_state_def demo_record_def js_def)
  show ?thesis
    by (simp add: updateTag_def f t Let_def DB_put_def env_greek_def env0_def)
      (simp add: demo_state_def demo_record_def js_def)
qed

text \<open>
  C1 as stated fails where lower-casing depends on the place of a letter in the string. In
  a browser that follows the Unicode standard, the page on which \<open>bar.otf\<close> is tagged
  with \<open>odos\<close> is searched for the capital sigma: the tag contains it as it is written,
  but the sigma of the tag is lower-cased to U+03C2 and the search string to U+03C3, and
  the view is empty.
\<close>

theorem filter_misses_final_sigma:
  "reachable (updateTag env_greek (js ''bar.otf'') odos demo_state) \<and>
   fonts (updateTag env_greek (js ''bar.otf'') odos demo_state) = [0, 1, 2] \<and>
   userTag (heap (updateTag env_greek (js ''bar.otf'') odos demo_state) 1) = Some odos \<and>
   sublist [0x3A3] odos \<and>
   ci_contains odos [0x3A3] \<and>
   toLowerCase env_greek [0x3A3] = [0x3C3] \<and>
   toLowerCase env_greek odos = [0x3BF, 0x3B4, 0x3BF, 0x3C2] \<and>
   filtered (settle (setSearch env_greek [0x3A3]
     (updateTag env_greek (js ''bar.otf'') odos demo_state))) = []"
proof -
  have "reachable (step env_greek (UpdateTag (js ''bar.otf'') odos) demo_state)"
    using demo_state_reachable by (rule reachable.event)
  then have r: "reachable (updateTag env_greek (js ''bar.otf'') odos demo_state)"
    by (simp add: step_def)
  have s: "sublist [0x3A3] odos"
    unfolding sublist_def odos_def by (intro exI [of _ "[0x39F, 0x394, 0x39F]"] exI [of _ "[]"]) simp
  have c: "ci_contains odos [0x3A3]"
    by (simp add: ci_contains_def odos_def same_letter_def)
  have l: "toLowerCase env_greek [0x3A3] = [0x3C3]"
    "toLowerCase env_greek odos = [0x3BF, 0x3B4, 0x3BF, 0x3C2]"
    by (simp_all add: toLowerCase_def env_greek_def odos_def is_cased_def)
  have la: "toLowerCase env_greek (js ''Foo.ttf'') = js ''foo.ttf''"
    "toLowerCase env_greek (js ''bar.otf'') = js ''bar.otf''"
    "toLowerCase env_greek (js ''baz.woff'') = js ''baz.woff''"
    by (simp_all add: toLowerCase_def ascii_lower_def js_def)
  have f: "filtered (settle (setSearch env_greek [0x3A3]
     (updateTag env_greek (js ''bar.otf'') odos demo_state))) = []"
    unfolding setSearch_def filter_view_filtered odos_tagged
    by (simp add: l matches_def demo_state_def demo_record_def la)
      (simp add: js_def odos_def)
  show ?thesis using r s c l f by (simp add: odos_tagged) (simp add: demo_state_def demo_record_def)
qed

section \<open>The upload\<close>

text \<open>
  C9. The extension check is case-insensitive: a file is taken into the batch exactly when
  its lower-cased name ends in one of the four extensions, so \<open>FONT.TTF\<close> is taken.
\<close>

theorem extension_check_case_insensitive:
  "validFiles E files =
     [f \<leftarrow> files. \<exists>ext \<in> set validExtensions. suffix ext (toLowerCase E (file_name f))] \<and>
   validFiles E [f\<lparr>file_name := js ''FONT.TTF''\<rparr>] = [f\<lparr>file_name := js ''FONT.TTF''\<rparr>]"
proof -
  have "validFiles E files =
     [f \<leftarrow> files. \<exists>ext \<in> set validExtensions. suffix ext (toLowerCase E (file_name f))]"
    by (simp add: validFiles_def list_ex_iff endsWith_suffix)
  moreover have "validFiles E [f\<lparr>file_name := js ''FONT.TTF''\<rparr>] = [f\<lparr>file_name := js ''FONT.TTF''\<rparr>]"
    by (simp add: validFiles_def validExtensions_def endsWith_def toLowerCase_def js_def ascii_lower_def)
  ultimately show ?thesis by simp
qed

theorem extension_check_case_insensitive_witness:
  "validFiles env0 [fake_file\<lparr>file_name := js ''notes.txt''\<rparr>, font_file\<lparr>file_name := js ''FONT.TTF''\<rparr>] =
     [font_file\<lparr>file_name := js ''FONT.TTF''\<rparr>]"
  using extension_check_case_insensitive [where E = env0 and f = font_file
      and files = "[fake_file\<lparr>file_name := js ''notes.txt''\<rparr>, font_file\<lparr>file_name := js ''FONT.TTF''\<rparr>]"]
  by (simp add: validFiles_def validExtensions_def endsWith_def toLowerCase_def js_def
      ascii_lower_def font_file_def fake_file_def)

lemma begin_upload_busy: "isProcessing s \<Longrightarrow> begin_upload E files s = (None, s)"
  by (simp add: begin_upload_def)

text \<open>
  C7. While the busy flag is set, an upload and a full clear are ignored: the state is the
  state before, nothing is stored, no batch is started and no notification is shown.
\<close>

theorem busy_invocation_ignored:
  assumes "isProcessing s"
  shows "handleUpload E files s = s \<and> fst (begin_upload E files s) = None \<and> clearAll E s = s"
  using assms by (simp add: handleUpload_def begin_upload_def clearAll_def)

theorem busy_invocation_ignored_witness:
  "isProcessing (demo_state\<lparr>isProcessing := True\<rparr>) \<and>
   handleUpload env0 [font_file] (demo_state\<lparr>isProcessing := True\<rparr>) = demo_state\<lparr>isProcessing := True\<rparr> \<and>
   clearAll env0 (demo_state\<lparr>isProcessing := True\<rparr>) = demo_state\<lparr>isProcessing := True\<rparr>"
  using busy_invocation_ignored [where s = "demo_state\<lparr>isProcessing := True\<rparr>" and E = env0 and files = "[font_file]"]
  by simp



lemma getUint32_eq:
  "getUint32 v = unat (v ! 0) * 2 ^ 24 + unat (v ! 1) * 2 ^ 16 + unat (v ! 2) * 2 ^ 8 + unat (v ! 3)"
  by (simp add: getUint32_def)

lemma checkSignature_eq:
  "checkSignature f = Resolved (slice_read_ok f \<and> has_font_magic (file_bytes f))"
proof (cases "slice_read_ok f \<and> 4 \<le> length (file_bytes f)")
  case True
  then have "getUint32 (take 4 (file_bytes f)) \<in> set magic_numbers \<longleftrightarrow> has_font_magic (file_bytes f)"
    unfolding getUint32_eq has_font_magic_def magic_numbers_def by simp
  with True show ?thesis by (simp add: checkSignature_def Let_def)
next
  case False
  then show ?thesis by (auto simp: checkSignature_def has_font_magic_def Let_def)
qed

lemma upload_file_rejected:
  assumes "\<not> (slice_read_ok f \<and> has_font_magic (file_bytes f))"
  shows "upload_file E f (s, n) =
           (toast (if file_size f > MAX_FILE_SIZE then TooBig (file_name f)
                   else BadSignature (file_name f)) s, n)"
  using assms by (auto simp: upload_file_def checkSignature_eq)

lemma modulo_toasts_refl: "modulo_toasts s s"
  by (simp add: modulo_toasts_def)

lemma modulo_toasts_toast: "modulo_toasts s (toast m s)"
  by (simp add: modulo_toasts_def toast_def)

lemma modulo_toasts_sym: "modulo_toasts s t \<Longrightarrow> modulo_toasts t s"
  by (simp add: modulo_toasts_def)

lemma modulo_toasts_trans: "modulo_toasts s t \<Longrightarrow> modulo_toasts t u \<Longrightarrow> modulo_toasts s u"
  by (simp add: modulo_toasts_def)

lemma modulo_toastsD: "modulo_toasts s s' \<Longrightarrow> s' = s\<lparr>toasts := toasts s'\<rparr>"
  by (cases s, cases s') (simp add: modulo_toasts_def)

lemma upload_file_modulo:
  assumes "modulo_toasts s s'"
  shows "modulo_toasts (fst (upload_file E f (s, n))) (fst (upload_file E f (s', n))) \<and>
         snd (upload_file E f (s, n)) = snd (upload_file E f (s', n))"
proof -
  from assms obtain ts where s': "s' = s\<lparr>toasts := ts\<rparr>" using modulo_toastsD by blast
  show ?thesis
    unfolding s'
    by (auto simp: upload_file_def checkSignature_eq modulo_toasts_def toast_def DB_put_def
        Let_def split: option.splits)
qed

lemma upload_files_modulo:
  "modulo_toasts s s' \<Longrightarrow>
   modulo_toasts (fst (upload_files E fs (s, n))) (fst (upload_files E fs (s', n))) \<and>
   snd (upload_files E fs (s, n)) = snd (upload_files E fs (s', n))"
proof (induction fs arbitrary: s s' n)
  case Nil
  then show ?case by simp
next
  case (Cons f fs)
  obtain t m where 1: "upload_file E f (s, n) = (t, m)" by (cases "upload_file E f (s, n)")
  obtain t' m' where 2: "upload_file E f (s', n) = (t', m')" by (cases "upload_file E f (s', n)")
  from upload_file_modulo [OF Cons.prems, of E f n] 1 2
  have "modulo_toasts t t'" and "m = m'" by simp_all
  with Cons.IH [of t t' m] 1 2 show ?case by simp
qed

lemma upload_files_append:
  "upload_files E (xs @ ys) sn = upload_files E ys (upload_files E xs sn)"
  by (induction xs arbitrary: sn) simp_all

lemma upload_files_skip:
  assumes "\<not> (slice_read_ok f \<and> has_font_magic (file_bytes f))"
  shows "modulo_toasts (fst (upload_files E (pre @ post) (s, n)))
           (fst (upload_files E (pre @ f # post) (s, n))) \<and>
         snd (upload_files E (pre @ f # post) (s, n)) = snd (upload_files E (pre @ post) (s, n))"
proof -
  obtain t m where 1: "upload_files E pre (s, n) = (t, m)" by (cases "upload_files E pre (s, n)")
  have 2: "upload_file E f (t, m) =
      (toast (if file_size f > MAX_FILE_SIZE then TooBig (file_name f)
              else BadSignature (file_name f)) t, m)"
    using assms by (rule upload_file_rejected)
  show ?thesis
    using upload_files_modulo [OF modulo_toasts_toast, of E post t m]
    by (simp add: upload_files_append 1 2)
qed










text \<open>
  C10. \<open>checkSignature\<close> always resolves to a boolean and never rejects; it resolves to
  false when the content is shorter than four bytes and when the read fails, and such a
  file is not stored: the loop leaves the store and the success count as they would be
  without it.
\<close>

theorem checkSignature_total:
  "(\<exists>b. checkSignature f = Resolved b) \<and>
   (length (file_bytes f) < 4 \<or> \<not> slice_read_ok f \<longrightarrow>
      checkSignature f = Resolved False \<and>
      store (fst (upload_file E f (s, n))) = store s \<and>
      snd (upload_file E f (s, n)) = n \<and>
      modulo_toasts (fst (upload_files E (pre @ post) (s, n)))
        (fst (upload_files E (pre @ f # post) (s, n))) \<and>
      snd (upload_files E (pre @ f # post) (s, n)) = snd (upload_files E (pre @ post) (s, n)))"
proof -
  have 1: "\<exists>b. checkSignature f = Resolved b" by (simp add: checkSignature_eq)
  have 2: "\<not> (slice_read_ok f \<and> has_font_magic (file_bytes f))"
    if "length (file_bytes f) < 4 \<or> \<not> slice_read_ok f"
    using that by (auto simp: has_font_magic_def)
  show ?thesis
    using 1 2 upload_file_rejected [of f E s n] upload_files_skip [of f E pre post s n]
    by (auto simp: checkSignature_eq toast_def)
qed

theorem checkSignature_total_witness:
  "checkSignature (font_file\<lparr>file_bytes := [0x00, 0x01]\<rparr>) = Resolved False \<and>
   checkSignature (font_file\<lparr>slice_read_ok := False\<rparr>) = Resolved False \<and>
   upload_file env0 (font_file\<lparr>file_bytes := [0x00, 0x01]\<rparr>) (demo_state, 0) =
     (toast (BadSignature (js ''Foo.ttf'')) demo_state, 0)"
  using checkSignature_total [where f = "font_file\<lparr>file_bytes := [0x00, 0x01]\<rparr>" and E = env0
      and s = demo_state and n = 0 and pre = "[]" and post = "[]"]
    checkSignature_total [where f = "font_file\<lparr>slice_read_ok := False\<rparr>" and E = env0
      and s = demo_state and n = 0 and pre = "[]" and post = "[]"]
  by (simp add: font_file_def upload_file_def checkSignature_def MAX_FILE_SIZE_def)

section \<open>Tags\<close>










text \<open>
  What the callers do when the store fails: \<open>deleteSingleFont\<close> and \<open>clearAll\<close> leave the
  page as it is but for the notification of the failure; \<open>updateTag\<close> has already changed
  the record in memory and shows nothing.
\<close>

lemma deleteSingleFont_store_failure:
  "confirm_answer E \<Longrightarrow> DB_delete E fn s = None \<Longrightarrow> deleteSingleFont E fn s = toast DeleteFailed s"
  by (simp add: deleteSingleFont_def)

lemma clearAll_store_failure:
  "confirm_answer E \<Longrightarrow> \<not> isProcessing s \<Longrightarrow> DB_clear E (s\<lparr>isProcessing := True\<rparr>) = None \<Longrightarrow>
   clearAll E s = toast ClearFailed s"
  by (cases s) (simp add: clearAll_def Let_def toast_def)

lemma updateTag_store_failure:
  assumes "find (\<lambda>r. fileName (heap s r) = fn) (fonts s) = Some r" and "\<not> (db s \<and> put_ok E fn)"
  shows "updateTag E fn rawTag s =
           s\<lparr>heap := (heap s)(r := (heap s r)\<lparr>userTag := Some (sanitizeTag rawTag)\<rparr>)\<rparr>"
proof -
  from assms(1) have "fileName (heap s r) = fn" by (auto simp: find_Some_iff)
  with assms show ?thesis by (auto simp: updateTag_def DB_put_def Let_def)
qed

text \<open>
  C2. A failed store operation is to leave the registry unchanged and to show a
  notification. \<open>updateTag\<close> does neither: with a store that refuses the put, the tag of
  \<open>bar.otf\<close> in memory changes from \<open>Foo\<close> to \<open>serif\<close>, the store keeps the old row and
  no notification is added.
\<close>

theorem updateTag_failed_put_keeps_tag:
  "userTag (heap demo_state 1) = Some (js ''Foo'') \<and>
   userTag (heap (updateTag (env0\<lparr>put_ok := \<lambda>k. False\<rparr>) (js ''bar.otf'') (js ''serif'') demo_state) 1) =
     Some (js ''serif'') \<and>
   store (updateTag (env0\<lparr>put_ok := \<lambda>k. False\<rparr>) (js ''bar.otf'') (js ''serif'') demo_state) =
     store demo_state \<and>
   toasts (updateTag (env0\<lparr>put_ok := \<lambda>k. False\<rparr>) (js ''bar.otf'') (js ''serif'') demo_state) =
     toasts demo_state"
proof -
  have t: "sanitizeTag (js ''serif'') = js ''serif''"
    by (simp add: sanitizeTag_def trim_def is_js_whitespace_def stripped_class_def js_def)
  have f: "find (\<lambda>r. fileName (heap demo_state r) = js ''bar.otf'') (fonts demo_state) = Some 1"
    by (simp add: demo_state_def demo_record_def js_def)
  show ?thesis
    by (simp add: updateTag_def f t Let_def DB_put_def) (simp add: demo_state_def demo_record_def)
qed

section \<open>One rule per font identifier\<close>

lemma style_inv_frame:
  "sheet s' = sheet s \<Longrightarrow> loadedFonts s' = loadedFonts s \<Longrightarrow> style_inv s \<Longrightarrow> style_inv s'"
  by (simp add: style_inv_def rules_of_def)

lemma getFontUrl_styles:
  "getFontUrl fn d s = (u, s') \<Longrightarrow> sheet s' = sheet s \<and> loadedFonts s' = loadedFonts s"
  by (auto simp: getFontUrl_def split: option.splits payload.splits)

lemma injectFontFace_styles:
  assumes "injectFontFace E fn d s = (res, s')"
  shows "(sheet s' = sheet s \<and> loadedFonts s' = loadedFonts s) \<or>
         (\<exists>fid. safeFontId fn d = Some fid \<and> fid \<notin> loadedFonts s \<and>
                loadedFonts s' = insert fid (loadedFonts s) \<and>
                (rules_of s' = rules_of s \<or>
                 (\<exists>u. rules_of s' = rules_of s @ [\<lparr>family = fid, src = u\<rparr>])))"
proof (cases "safeFontId fn d")
  case None
  with assms show ?thesis by (simp add: injectFontFace_def)
next
  case (Some fid)
  show ?thesis
  proof (cases "fid \<in> loadedFonts s")
    case True
    with assms Some show ?thesis by (simp add: injectFontFace_def)
  next
    case False
    obtain u s1 where g: "getFontUrl fn d s = (u, s1)" by (cases "getFontUrl fn d s")
    from getFontUrl_styles [OF g] have s1: "sheet s1 = sheet s" "loadedFonts s1 = loadedFonts s"
      by simp_all
    show ?thesis
    proof (cases "falsy_url u")
      case True
      with assms Some False g s1 show ?thesis
        by (auto simp: injectFontFace_def split: option.splits)
    next
      case nf: False
      then obtain v where u: "u = Some v" by (cases u) auto
      with assms Some False g nf have s': "s' = (MasterStyle_insert E \<lparr>family = fid, src = v\<rparr> s1)
          \<lparr>loadedFonts := insert fid (loadedFonts (MasterStyle_insert E \<lparr>family = fid, src = v\<rparr> s1))\<rparr>"
        by (simp add: injectFontFace_def Let_def)
      have "loadedFonts s' = insert fid (loadedFonts s)"
        unfolding s' using s1 by (simp add: MasterStyle_insert_def split: option.splits)
      moreover have "rules_of s' = rules_of s \<or> rules_of s' = rules_of s @ [\<lparr>family = fid, src = v\<rparr>]"
        unfolding s' using s1 by (simp add: MasterStyle_insert_def rules_of_def split: option.splits)
      ultimately show ?thesis using Some False by auto
    qed
  qed
qed

lemma injectFontFace_style_inv:
  assumes inv: "style_inv s" and inj: "injectFontFace E fn d s = (res, s')"
  shows "style_inv s'"
proof -
  from inv have d: "distinct (map family (rules_of s))"
    and sub: "set (map family (rules_of s)) \<subseteq> loadedFonts s"
    by (simp_all add: style_inv_def)
  from injectFontFace_styles [OF inj] consider
      (same) "sheet s' = sheet s" "loadedFonts s' = loadedFonts s"
    | (cached) fid where "fid \<notin> loadedFonts s" "loadedFonts s' = insert fid (loadedFonts s)"
        "rules_of s' = rules_of s"
    | (added) fid u where "fid \<notin> loadedFonts s" "loadedFonts s' = insert fid (loadedFonts s)"
        "rules_of s' = rules_of s @ [\<lparr>family = fid, src = u\<rparr>]"
    by (elim disjE exE conjE) blast+
  then show ?thesis
  proof cases
    case same
    with inv show ?thesis by (rule style_inv_frame [rotated 2])
  next
    case cached
    have "distinct (map family (rules_of s'))" using d by (simp add: cached(3))
    moreover have "set (map family (rules_of s')) \<subseteq> loadedFonts s'"
      using sub by (simp add: cached(2,3) subset_insertI2)
    ultimately show ?thesis unfolding style_inv_def by (rule conjI)
  next
    case added
    from added(1) sub have nin: "fid \<notin> set (map family (rules_of s))" by blast
    have "distinct (map family (rules_of s'))" using d nin by (simp add: added(3))
    moreover have "set (map family (rules_of s')) \<subseteq> loadedFonts s'"
      using sub by (simp add: added(2,3) subset_insertI2)
    ultimately show ?thesis unfolding style_inv_def by (rule conjI)
  qed
qed

lemma injectFontFace_prefix:
  assumes "injectFontFace E fn d s = (res, s')"
  shows "prefix (rules_of s) (rules_of s')"
proof -
  from injectFontFace_styles [OF assms]
  have "rules_of s' = rules_of s \<or> (\<exists>r. rules_of s' = rules_of s @ [r])"
    by (auto simp: rules_of_def)
  then show ?thesis by auto
qed

lemma style_step_refl: "style_step s s"
  by (simp add: style_step_def)

lemma style_step_trans: "style_step s t \<Longrightarrow> style_step t u \<Longrightarrow> style_step s u"
  by (auto simp: style_step_def intro: prefix_order.trans)

lemma style_step_frame:
  "sheet s' = sheet s \<Longrightarrow> loadedFonts s' = loadedFonts s \<Longrightarrow> style_step s s'"
  by (simp add: style_step_def style_inv_def rules_of_def)

lemma injectFontFace_style_step: "injectFontFace E fn d s = (res, s') \<Longrightarrow> style_step s s'"
  by (simp add: style_step_def injectFontFace_style_inv injectFontFace_prefix)

lemma place_style_step: "style_step s (place i e s)"
  by (rule style_step_frame) (simp_all add: place_def Let_def)

lemma render_each_style_step: "style_step s (settle (render_each E rs i s))"
proof (induction rs arbitrary: i s)
  case Nil
  then show ?case by (simp add: settle_def style_step_refl)
next
  case (Cons r rs)
  show ?case
  proof (cases "map_of (renderedMap s) (fileName (heap s r))")
    case (Some e)
    then show ?thesis
      using Cons.IH [where i = "Suc i" and s = "place i e s"] place_style_step [of s i e]
      by (auto simp: Let_def intro: style_step_trans)
  next
    case None
    obtain res s1 where inj: "injectFontFace E (fileName (heap s r)) (data (heap s r)) s = (res, s1)"
      by (cases "injectFontFace E (fileName (heap s r)) (data (heap s r)) s")
    have r1: "style_step s s1" using inj by (rule injectFontFace_style_step)
    show ?thesis
    proof (cases res)
      case (Inl err)
      with None inj r1 show ?thesis by (simp add: Let_def settle_def)
    next
      case (Inr fid)
      show ?thesis
      proof (cases fid)
        case None': None
        with None inj Inr r1 Cons.IH [where i = "Suc i" and s = s1] show ?thesis
          by (auto simp: Let_def intro: style_step_trans)
      next
        case (Some fontId)
        let ?e = "\<lparr>card = next_node s1, preview = Suc (next_node s1)\<rparr>"
        let ?s2 = "s1\<lparr>next_node := Suc (Suc (next_node s1)),
                       renderedMap := renderedMap s1 @ [(fileName (heap s r), ?e)]\<rparr>"
        have "style_step s1 ?s2" by (rule style_step_frame) simp_all
        then have "style_step s (place i ?e ?s2)"
          using r1 place_style_step [of ?s2 i ?e] by (blast intro: style_step_trans)
        with None inj Inr Some Cons.IH [where i = "Suc i" and s = "place i ?e ?s2"] show ?thesis
          by (auto simp: Let_def intro: style_step_trans)
      qed
    qed
  qed
qed

lemma render_style_step: "style_step s (settle (render E s))"
  unfolding render_def Let_def
  apply (rule style_step_trans [OF _ render_each_style_step])
  apply (rule style_step_frame)
   apply simp_all
  done

lemma filter_view_style_step: "style_step s (settle (filter_view E s))"
proof -
  let ?s = "s\<lparr>filtered := [r \<leftarrow> fonts s. matches E (toLowerCase E (search s)) (heap s r)]\<rparr>"
  have "style_step s ?s" by (rule style_step_frame) simp_all
  moreover have "style_step ?s (settle (render E ?s))" by (rule render_style_step)
  ultimately show ?thesis
    unfolding filter_view_def Let_def by (rule style_step_trans)
qed

lemma filter_view_style_inv: "style_inv s \<Longrightarrow> style_inv (settle (filter_view E s))"
  using filter_view_style_step [of s E] by (simp add: style_step_def)

lemma inject_all_style_step: "style_step s (settle (inject_all E rs s))"
proof (induction rs arbitrary: s)
  case Nil
  then show ?case by (simp add: settle_def style_step_refl)
next
  case (Cons r rs)
  obtain res s1 where inj: "injectFontFace E (fileName (heap s r)) (data (heap s r)) s = (res, s1)"
    by (cases "injectFontFace E (fileName (heap s r)) (data (heap s r)) s")
  have r1: "style_step s s1" using inj by (rule injectFontFace_style_step)
  show ?case
  proof (cases res)
    case (Inl err)
    with inj r1 show ?thesis by (simp add: settle_def)
  next
    case (Inr fid)
    with inj r1 Cons.IH [of s1] show ?thesis by (auto intro: style_step_trans)
  qed
qed

lemma reset_then_rendered_frame:
  "reset_then_rendered E s \<Longrightarrow> sheet s' = sheet s \<Longrightarrow> loadedFonts s' = loadedFonts s \<Longrightarrow>
   reset_then_rendered E s'"
  by (auto simp: reset_then_rendered_def)

lemma reset_then_rendered_style_inv: "reset_then_rendered E s' \<Longrightarrow> style_inv s'"
proof -
  assume "reset_then_rendered E s'"
  then obtain m where m: "sheet m = Some []" "loadedFonts m = {}"
    and eq: "sheet s' = sheet (settle (filter_view E m))"
      "loadedFonts s' = loadedFonts (settle (filter_view E m))"
    by (auto simp: reset_then_rendered_def)
  from m have "style_inv m" by (simp add: style_inv_def rules_of_def)
  then have "style_inv (settle (filter_view E m))" by (rule filter_view_style_inv)
  with eq show ?thesis by (rule style_inv_frame)
qed

lemma style_ok_style_inv: "style_ok E s s' \<Longrightarrow> style_inv s \<Longrightarrow> style_inv s'"
  by (auto simp: style_ok_def style_step_def dest: reset_then_rendered_style_inv)

lemma style_ok_frame_left:
  "sheet t = sheet s \<Longrightarrow> loadedFonts t = loadedFonts s \<Longrightarrow> style_ok E t s' \<Longrightarrow> style_ok E s s'"
  unfolding style_ok_def
  using style_step_frame [of t s] style_step_trans [of s t s'] by blast

lemma style_ok_frame_right:
  "style_ok E s t \<Longrightarrow> sheet s' = sheet t \<Longrightarrow> loadedFonts s' = loadedFonts t \<Longrightarrow> style_ok E s s'"
  unfolding style_ok_def
  using style_step_frame [of s' t] style_step_trans [of s t s'] reset_then_rendered_frame [of E t s']
  by blast

lemma loadFonts_style_ok: "style_ok E s (settle (loadFonts E s))"
proof (cases "DB_getAll E s")
  case None
  then show ?thesis by (simp add: loadFonts_def settle_def style_ok_def style_step_refl)
next
  case (Some recs)
  obtain refs s0 where a: "alloc recs s = (refs, s0)" by (cases "alloc recs s")
  then have s0: "sheet s0 = sheet s" "loadedFonts s0 = loadedFonts s"
    by (auto simp: alloc_def)
  let ?s1 = "s0\<lparr>fonts := refs, grid := [], renderedMap := [], previewNodes := []\<rparr>"
  show ?thesis
  proof (cases "sheet s")
    case None
    with Some a s0 have "settle (loadFonts E s) = ?s1"
      by (simp add: loadFonts_def Let_def MasterStyle_clear_def settle_def)
    moreover have "style_step s ?s1" by (rule style_step_frame) (simp_all add: s0)
    ultimately show ?thesis by (simp add: style_ok_def)
  next
    case (Some rules)
    let ?m = "?s1\<lparr>sheet := Some [], loadedFonts := {}\<rparr>"
    from Some \<open>DB_getAll E s = Some recs\<close> a s0 have "settle (loadFonts E s) = settle (filter_view E ?m)"
      by (simp add: loadFonts_def Let_def MasterStyle_clear_def)
    then have "reset_then_rendered E (settle (loadFonts E s))"
      unfolding reset_then_rendered_def by (intro exI [of _ ?m]) simp
    then show ?thesis by (simp add: style_ok_def)
  qed
qed

lemma upload_file_styles:
  "sheet (fst (upload_file E f (s, n))) = sheet s \<and>
   loadedFonts (fst (upload_file E f (s, n))) = loadedFonts s"
  by (auto simp: upload_file_def toast_def DB_put_def Let_def split: promise.splits option.splits)

lemma upload_files_styles:
  "sheet (fst (upload_files E fs (s, n))) = sheet s \<and>
   loadedFonts (fst (upload_files E fs (s, n))) = loadedFonts s"
proof (induction fs arbitrary: s n)
  case Nil
  then show ?case by simp
next
  case (Cons f fs)
  obtain t m where 1: "upload_file E f (s, n) = (t, m)" by (cases "upload_file E f (s, n)")
  with upload_file_styles [of E f s n] Cons.IH [of t m] show ?case by simp
qed

lemma finish_upload_style_ok: "style_ok E s (finish_upload E (s, n))"
proof -
  let ?s2 = "if n > 0 then toast (Uploaded n) (s\<lparr>isProcessing := False\<rparr>) else s\<lparr>isProcessing := False\<rparr>"
  have "style_ok E ?s2 (settle (loadFonts E ?s2))" by (rule loadFonts_style_ok)
  then have "style_ok E s (settle (loadFonts E ?s2))"
    by (rule style_ok_frame_left [rotated 2]) (simp_all add: toast_def)
  then show ?thesis by (simp add: finish_upload_def Let_def)
qed

lemma begin_upload_styles:
  "sheet (snd (begin_upload E files s)) = sheet s \<and>
   loadedFonts (snd (begin_upload E files s)) = loadedFonts s"
  by (auto simp: begin_upload_def Let_def toast_def split: option.splits)

lemma handleUpload_style_ok: "style_ok E s (handleUpload E files s)"
proof (cases "begin_upload E files s")
  case (Pair ov s1)
  with begin_upload_styles [of E files s] have s1: "sheet s1 = sheet s" "loadedFonts s1 = loadedFonts s"
    by simp_all
  show ?thesis
  proof (cases ov)
    case None
    with Pair s1 show ?thesis
      by (simp add: handleUpload_def style_ok_def style_step_frame)
  next
    case (Some vs)
    obtain t m where 1: "upload_files E vs (s1, 0) = (t, m)" by (cases "upload_files E vs (s1, 0)")
    with upload_files_styles [of E vs s1 0] s1 have t: "sheet t = sheet s" "loadedFonts t = loadedFonts s"
      by simp_all
    have "style_ok E t (finish_upload E (t, m))" by (rule finish_upload_style_ok)
    then have "style_ok E s (finish_upload E (t, m))"
      using t by (rule style_ok_frame_left [rotated 2])
    with Pair Some 1 show ?thesis by (simp add: handleUpload_def)
  qed
qed

lemma style_ok_step: "style_step s s' \<Longrightarrow> style_ok E s s'"
  by (simp add: style_ok_def)

lemma deleteSingleFont_style_ok: "style_ok E s (deleteSingleFont E fn s)"
proof (cases "confirm_answer E \<and> DB_delete E fn s \<noteq> None")
  case False
  then show ?thesis
    by (auto simp: deleteSingleFont_def toast_def intro!: style_ok_step style_step_frame)
next
  case True
  then obtain s0 where d: "DB_delete E fn s = Some s0" by auto
  then have s0: "sheet s0 = sheet s" "loadedFonts s0 = loadedFonts s"
    by (auto simp: DB_delete_def split: if_splits)
  define s1 where "s1 = s0\<lparr>fonts := [r \<leftarrow> fonts s0. fileName (heap s0 r) \<noteq> fn],
                         filtered := [r \<leftarrow> filtered s0. fileName (heap s0 r) \<noteq> fn]\<rparr>"
  define s2 where "s2 = (case map_of (objectUrls s1) fn of
                          Some u \<Rightarrow> s1\<lparr>revoked := revoked s1 @ [u],
                                       objectUrls := [kv \<leftarrow> objectUrls s1. fst kv \<noteq> fn]\<rparr>
                        | None \<Rightarrow> s1)"
  define s3 where "s3 = (case map_of (renderedMap s2) fn of
                          Some e \<Rightarrow> s2\<lparr>grid := removeAll (Card (card e)) (grid s2),
                                       renderedMap := [kv \<leftarrow> renderedMap s2. fst kv \<noteq> fn]\<rparr>
                        | None \<Rightarrow> s2)"
  have s3: "sheet s3 = sheet s" "loadedFonts s3 = loadedFonts s"
    by (simp_all add: s3_def s2_def s1_def s0 split: option.splits)
  have res: "deleteSingleFont E fn s =
      (case filter_view E s3 of Inr s4 \<Rightarrow> toast Deleted s4 | Inl (err, s4) \<Rightarrow> toast DeleteFailed s4)"
    unfolding s3_def s2_def s1_def deleteSingleFont_def Let_def
    using True by (simp only: d simp_thms if_False option.case)
  have eq: "sheet (deleteSingleFont E fn s) = sheet (settle (filter_view E s3)) \<and>
      loadedFonts (deleteSingleFont E fn s) = loadedFonts (settle (filter_view E s3))"
    unfolding res by (auto simp: settle_def toast_def split: sum.splits)
  have "style_ok E s3 (settle (filter_view E s3))"
    by (rule style_ok_step) (rule filter_view_style_step)
  then have "style_ok E s (settle (filter_view E s3))"
    using s3 by (rule style_ok_frame_left [rotated 2])
  then show ?thesis using eq by (blast intro: style_ok_frame_right)
qed

lemma clearAll_style_ok: "style_ok E s (clearAll E s)"
proof (cases "confirm_answer E \<and> \<not> isProcessing s")
  case False
  then show ?thesis
    by (auto simp: clearAll_def intro!: style_ok_step style_step_refl)
next
  case True
  let ?s0 = "s\<lparr>isProcessing := True\<rparr>"
  show ?thesis
  proof (cases "DB_clear E ?s0")
    case None
    with True show ?thesis
      by (auto simp: clearAll_def Let_def toast_def intro!: style_ok_step style_step_frame)
  next
    case (Some s1)
    then have s1: "sheet s1 = sheet s" "loadedFonts s1 = loadedFonts s"
      by (auto simp: DB_clear_def split: if_splits)
    let ?s2 = "s1\<lparr>revoked := revoked s1 @ map snd (objectUrls s1), objectUrls := []\<rparr>"
    have eq: "sheet (clearAll E s) = sheet (settle (loadFonts E ?s2)) \<and>
        loadedFonts (clearAll E s) = loadedFonts (settle (loadFonts E ?s2))"
      using True Some by (auto simp: clearAll_def Let_def settle_def toast_def split: sum.splits)
    have "style_ok E ?s2 (settle (loadFonts E ?s2))" by (rule loadFonts_style_ok)
    then have "style_ok E s (settle (loadFonts E ?s2))"
      by (rule style_ok_frame_left [rotated 2]) (simp_all add: s1)
    then show ?thesis using eq by (blast intro: style_ok_frame_right)
  qed
qed

lemma updateTag_style_ok: "style_ok E s (updateTag E fn rawTag s)"
  by (rule style_ok_step, rule style_step_frame)
    (auto simp: updateTag_def DB_put_def Let_def split: option.splits)

lemma exportPDF_style_ok: "style_ok E s (settle (exportPDF E s))"
proof -
  let ?l = "if filtered s \<noteq> [] then filtered s else fonts s"
  let ?s = "s\<lparr>isProcessing := True\<rparr>"
  have 1: "style_step s ?s" by (rule style_step_frame) simp_all
  have 2: "style_step ?s (settle (inject_all E ?l ?s))" by (rule inject_all_style_step)
  have 3: "style_step (settle (inject_all E ?l ?s)) ((settle (inject_all E ?l ?s))\<lparr>isProcessing := False\<rparr>)"
    by (rule style_step_frame) simp_all
  have "style_step s (settle (exportPDF E s))"
  proof (cases "(search s \<noteq> [] \<and> filtered s = []) \<or> fonts s = []")
    case True
    then show ?thesis
      by (auto simp: exportPDF_def settle_def toast_def intro!: style_step_frame)
  next
    case False
    show ?thesis
    proof (cases "inject_all E ?l ?s")
      case (Inl a)
      with False 1 2 show ?thesis
        by (cases a) (auto simp: exportPDF_def settle_def intro: style_step_trans)
    next
      case (Inr b)
      with False 1 2 3 show ?thesis
        by (auto simp: exportPDF_def settle_def intro: style_step_trans)
    qed
  qed
  then show ?thesis by (rule style_ok_step)
qed

lemma setSearch_style_ok: "style_ok E s (settle (setSearch E v s))"
proof -
  have "style_step s (s\<lparr>search := v\<rparr>)" by (rule style_step_frame) simp_all
  moreover have "style_step (s\<lparr>search := v\<rparr>) (settle (filter_view E (s\<lparr>search := v\<rparr>)))"
    by (rule filter_view_style_step)
  ultimately show ?thesis
    unfolding setSearch_def by (intro style_ok_step) (rule style_step_trans)
qed

lemma step_style_ok: "style_ok E s (step E ev s)"
  by (cases ev)
    (simp_all add: step_def setSearch_style_ok handleUpload_style_ok deleteSingleFont_style_ok
      clearAll_style_ok updateTag_style_ok exportPDF_style_ok loadFonts_style_ok)

lemma init_style_inv: "style_inv (init E rows)"
proof -
  let ?s1 = "MasterStyle_init E (initial\<lparr>store := rows\<rparr>)"
  have 1: "style_inv ?s1"
    by (simp add: MasterStyle_init_def initial_def style_inv_def rules_of_def)
  then have 2: "style_inv (?s1\<lparr>db := True\<rparr>)"
    by (rule style_inv_frame [rotated 2]) simp_all
  have "style_inv (settle (loadFonts E (?s1\<lparr>db := True\<rparr>)))"
    using loadFonts_style_ok 2 by (rule style_ok_style_inv)
  moreover have "style_inv (toast LoadFailed ?s1)"
    using 1 by (rule style_inv_frame [rotated 2]) (simp_all add: toast_def)
  ultimately show ?thesis by (simp add: init_def Let_def)
qed

lemma reachable_style_inv: "reachable s \<Longrightarrow> style_inv s"
proof (induction rule: reachable.induct)
  case (first_visit E)
  show ?case by (rule init_style_inv)
next
  case (later_visit s E)
  show ?case by (rule init_style_inv)
next
  case (event s E ev)
  from step_style_ok event.IH show ?case by (rule style_ok_style_inv)
next
  case (batch_begin s E files vs s1)
  with begin_upload_styles [of E files s] show ?case
    by (auto intro: style_inv_frame)
next
  case (batch_file s E f n)
  with upload_file_styles [of E f s n] show ?case
    by (auto intro: style_inv_frame)
next
  case (batch_end s E n)
  from finish_upload_style_ok batch_end.IH show ?case by (rule style_ok_style_inv)
qed

lemma style_ok_cases:
  "style_ok E s s' \<Longrightarrow> prefix (rules_of s) (rules_of s') \<or> reset_then_rendered E s'"
  by (auto simp: style_ok_def style_step_def)

text \<open>
  C8. On every page the program can reach, no two rules of the sheet name the same font
  identifier, and every identifier with a rule is in the cache. \<open>injectFontFace\<close> adds a
  rule only for an identifier that is not in the cache, and puts the identifier there. Every
  event either only adds rules to the sheet, or has emptied the sheet together with the
  cache and rendered from there.
\<close>

theorem one_rule_per_font_id:
  "(reachable s \<longrightarrow>
      distinct (map family (rules_of s)) \<and> set (map family (rules_of s)) \<subseteq> loadedFonts s) \<and>
   (rules_of (snd (injectFontFace E fn d s)) \<noteq> rules_of s \<longrightarrow>
      (\<exists>fid u. safeFontId fn d = Some fid \<and> fid \<notin> loadedFonts s \<and>
         rules_of (snd (injectFontFace E fn d s)) = rules_of s @ [\<lparr>family = fid, src = u\<rparr>] \<and>
         loadedFonts (snd (injectFontFace E fn d s)) = insert fid (loadedFonts s))) \<and>
   (prefix (rules_of s) (rules_of (step E ev s)) \<or> reset_then_rendered E (step E ev s))"
proof -
  have 1: "reachable s \<longrightarrow>
      distinct (map family (rules_of s)) \<and> set (map family (rules_of s)) \<subseteq> loadedFonts s"
    using reachable_style_inv [of s] by (simp add: style_inv_def)
  obtain res s1 where inj: "injectFontFace E fn d s = (res, s1)" by (cases "injectFontFace E fn d s")
  from injectFontFace_styles [OF inj]
  have 2: "rules_of s1 \<noteq> rules_of s \<longrightarrow>
      (\<exists>fid u. safeFontId fn d = Some fid \<and> fid \<notin> loadedFonts s \<and>
         rules_of s1 = rules_of s @ [\<lparr>family = fid, src = u\<rparr>] \<and>
         loadedFonts s1 = insert fid (loadedFonts s))"
    by (auto simp: rules_of_def)
  have 3: "prefix (rules_of s) (rules_of (step E ev s)) \<or> reset_then_rendered E (step E ev s)"
    using step_style_ok by (rule style_ok_cases)
  from 1 2 3 inj show ?thesis by simp
qed

theorem one_rule_per_font_id_witness:
  "reachable demo_state \<and>
   rules_of demo_state =
     [\<lparr>family = js ''f_Foo_ttf_Rm9vLnR0'', src = BlobUrl 0\<rparr>,
      \<lparr>family = js ''f_bar_otf_YmFyLm90'', src = BlobUrl 1\<rparr>,
      \<lparr>family = js ''f_baz_woff_YmF6Lndv'', src = BlobUrl 2\<rparr>] \<and>
   distinct (map family (rules_of demo_state)) \<and>
   set (map family (rules_of demo_state)) \<subseteq> loadedFonts demo_state"
  using one_rule_per_font_id [of demo_state env0 "js ''Foo.ttf''" "data (demo_record 0)" "Search []"]
    demo_state_reachable
  by (simp add: rules_of_def demo_state_def)

section \<open>Deleting a font\<close>

lemma map_of_filter_key:
  "map_of [kv \<leftarrow> m. P (fst kv)] k = (if P k then map_of m k else None)"
  by (induction m) auto

lemma place_noop:
  assumes "i < length (grid t)" and "grid t ! i = Card (card e)"
  shows "place i e t = t\<lparr>previewNodes := previewNodes t @ [preview e]\<rparr>"
  using assms by (simp add: place_def Let_def)

lemma render_each_noop:
  assumes "\<forall>k < length rs. \<exists>e. map_of (renderedMap t) (fileName (heap t (rs ! k))) = Some e \<and>
             i + k < length (grid t) \<and> grid t ! (i + k) = Card (card e)"
  shows "\<exists>p. render_each E rs i t = Inr (t\<lparr>previewNodes := p\<rparr>)"
  using assms
proof (induction rs arbitrary: i t)
  case Nil
  have "t = t\<lparr>previewNodes := previewNodes t\<rparr>" by simp
  then show ?case by (metis render_each.simps(1))
next
  case (Cons r rs)
  from Cons.prems [rule_format, of 0] obtain e where
    e: "map_of (renderedMap t) (fileName (heap t r)) = Some e" "i < length (grid t)"
      "grid t ! i = Card (card e)"
    by auto
  let ?t = "t\<lparr>previewNodes := previewNodes t @ [preview e]\<rparr>"
  have pl: "place i e t = ?t" using e(2,3) by (rule place_noop)
  have "\<forall>k < length rs. \<exists>e. map_of (renderedMap ?t) (fileName (heap ?t (rs ! k))) = Some e \<and>
             Suc i + k < length (grid ?t) \<and> grid ?t ! (Suc i + k) = Card (card e)"
  proof (intro allI impI)
    fix k assume "k < length rs"
    then have "Suc k < length (r # rs)" by simp
    from Cons.prems [rule_format, OF this] show "\<exists>e. map_of (renderedMap ?t) (fileName (heap ?t (rs ! k))) = Some e \<and>
             Suc i + k < length (grid ?t) \<and> grid ?t ! (Suc i + k) = Card (card e)"
      by simp
  qed
  from Cons.IH [OF this] obtain p where "render_each E rs (Suc i) ?t = Inr (?t\<lparr>previewNodes := p\<rparr>)"
    by blast
  then have "render_each E (r # rs) i t = Inr (t\<lparr>previewNodes := p\<rparr>)"
    using e(1) pl by (simp add: Let_def)
  then show ?case by blast
qed

lemma render_settled:
  assumes ent: "\<forall>r \<in> set (filtered t). map_of (renderedMap t) (fileName (heap t r)) \<noteq> None"
    and G: "if filtered t = []
            then [n \<leftarrow> grid t. n \<notin> set (map (\<lambda>kv. Card (card (snd kv)))
                     [kv \<leftarrow> renderedMap t. fst kv \<notin> set (map (\<lambda>r. fileName (heap t r)) (filtered t))])]
                   \<in> {[], [EmptyState]}
            else [n \<leftarrow> grid t. n \<notin> set (map (\<lambda>kv. Card (card (snd kv)))
                     [kv \<leftarrow> renderedMap t. fst kv \<notin> set (map (\<lambda>r. fileName (heap t r)) (filtered t))])]
                   = map (card_of t) (filtered t)"
  shows "\<exists>p. render E t =
           Inr (t\<lparr>renderedMap := [kv \<leftarrow> renderedMap t. fst kv \<in> set (map (\<lambda>r. fileName (heap t r)) (filtered t))],
                  grid := (if filtered t = [] then [EmptyState] else map (card_of t) (filtered t)),
                  previewNodes := p\<rparr>)"
proof (cases "filtered t = []")
  case True
  let ?G = "[n \<leftarrow> grid t. n \<notin> set (map (\<lambda>kv. Card (card (snd kv)))
                     [kv \<leftarrow> renderedMap t. fst kv \<notin> set (map (\<lambda>r. fileName (heap t r)) (filtered t))])]"
  let ?s1 = "t\<lparr>grid := ?G,
               renderedMap := [kv \<leftarrow> renderedMap t. fst kv \<in> set (map (\<lambda>r. fileName (heap t r)) (filtered t))]\<rparr>"
  let ?s2 = "if EmptyState \<in> set (grid ?s1) then ?s1 else ?s1\<lparr>grid := grid ?s1 @ [EmptyState]\<rparr>"
  have r: "render E t = Inr (?s2\<lparr>previewNodes := []\<rparr>)"
    using True by (simp add: render_def Let_def)
  from G True have "?G = [] \<or> ?G = [EmptyState]" by simp
  then have "?s2\<lparr>previewNodes := []\<rparr> =
      t\<lparr>renderedMap := [kv \<leftarrow> renderedMap t. fst kv \<in> set (map (\<lambda>r. fileName (heap t r)) (filtered t))],
        grid := [EmptyState], previewNodes := []\<rparr>"
  proof
    assume "?G = []"
    then show ?thesis by (cases t) simp
  next
    assume "?G = [EmptyState]"
    then show ?thesis by (cases t) simp
  qed
  with r True show ?thesis by auto
next
  case False
  let ?keys = "map (\<lambda>r. fileName (heap t r)) (filtered t)"
  let ?t3 = "t\<lparr>renderedMap := [kv \<leftarrow> renderedMap t. fst kv \<in> set ?keys],
               grid := map (card_of t) (filtered t), previewNodes := []\<rparr>"
  have cards: "\<And>r. r \<in> set (filtered t) \<Longrightarrow> \<exists>e. map_of (renderedMap t) (fileName (heap t r)) = Some e \<and> card_of t r = Card (card e)"
    using ent by (auto simp: card_of_def)
  then have noempty: "EmptyState \<notin> set (map (card_of t) (filtered t))" by fastforce
  have r: "render E t = render_each E (filtered t) 0 ?t3"
    using False G noempty by (simp add: render_def Let_def remove1_idem)
  have "\<forall>k < length (filtered t). \<exists>e. map_of (renderedMap ?t3) (fileName (heap ?t3 (filtered t ! k))) = Some e \<and>
             0 + k < length (grid ?t3) \<and> grid ?t3 ! (0 + k) = Card (card e)"
  proof (intro allI impI)
    fix k assume k: "k < length (filtered t)"
    then have "filtered t ! k \<in> set (filtered t)" by simp
    from cards [OF this] obtain e where e: "map_of (renderedMap t) (fileName (heap t (filtered t ! k))) = Some e"
      "card_of t (filtered t ! k) = Card (card e)" by blast
    have "fileName (heap t (filtered t ! k)) \<in> set ?keys" using k by simp
    then have "map_of (renderedMap ?t3) (fileName (heap ?t3 (filtered t ! k))) = Some e"
      using e(1) map_of_filter_key [of "\<lambda>x. x \<in> set ?keys" "renderedMap t" "fileName (heap t (filtered t ! k))"]
      by simp
    with k e(2) show "\<exists>e. map_of (renderedMap ?t3) (fileName (heap ?t3 (filtered t ! k))) = Some e \<and>
             0 + k < length (grid ?t3) \<and> grid ?t3 ! (0 + k) = Card (card e)"
      by simp
  qed
  from render_each_noop [OF this, of E] obtain p where
    "render_each E (filtered t) 0 ?t3 = Inr (?t3\<lparr>previewNodes := p\<rparr>)" by blast
  with r False show ?thesis by auto
qed

lemma distinct_map_filterI: "distinct (map f xs) \<Longrightarrow> distinct (map f (filter P xs))"
  by (induction xs) auto

lemma view_ok_names: "view_ok s \<Longrightarrow> distinct (map (name_of s) (filtered s))"
  unfolding view_ok_def by (metis distinct_map_filterI)

lemma view_ok_entry:
  assumes "view_ok s" and "r \<in> set (filtered s)"
  shows "\<exists>e. map_of (renderedMap s) (name_of s r) = Some e \<and> card_of s r = Card (card e) \<and>
             (name_of s r, e) \<in> set (renderedMap s)"
proof -
  from assms have "name_of s r \<in> set (map fst (renderedMap s))" by (auto simp: view_ok_def)
  then obtain e where "map_of (renderedMap s) (name_of s r) = Some e"
    by (metis map_of_eq_None_iff not_Some_eq set_map)
  then show ?thesis by (auto simp: card_of_def name_of_def dest: map_of_SomeD)
qed

lemma cards_inj:
  assumes "distinct (map (\<lambda>kv. card (snd kv)) m)" and "(k1, e1) \<in> set m" and "(k2, e2) \<in> set m"
    and "card e1 = card e2"
  shows "k1 = k2"
proof -
  from assms(1) have "inj_on (\<lambda>kv. card (snd kv)) (set m)" by (simp add: distinct_map)
  moreover have "(\<lambda>kv. card (snd kv)) (k1, e1) = (\<lambda>kv. card (snd kv)) (k2, e2)"
    using assms(4) by simp
  ultimately have "(k1, e1) = (k2, e2)" using assms(2,3) by (rule inj_onD)
  then show ?thesis by simp
qed

lemma filter_absent_key: "map_of m k = None \<Longrightarrow> [kv \<leftarrow> m. fst kv \<noteq> k] = m"
  by (induction m) (auto split: if_splits)

lemma deleteSingleFont_eq:
  assumes "confirm_answer E" and "db s" and "delete_ok E fn"
  shows "deleteSingleFont E fn s =
           (case filter_view E (after_delete fn s) of
              Inr s4 \<Rightarrow> toast Deleted s4 | Inl (err, s4) \<Rightarrow> toast DeleteFailed s4)"
proof -
  have d: "DB_delete E fn s = Some (s\<lparr>store := store_delete fn (store s)\<rparr>)"
    using assms by (simp add: DB_delete_def)
  have "(case map_of (renderedMap s) fn of
          Some e \<Rightarrow> (case map_of (objectUrls s) fn of
                       Some u \<Rightarrow> s\<lparr>store := store_delete fn (store s),
                                   fonts := [r \<leftarrow> fonts s. fileName (heap s r) \<noteq> fn],
                                   filtered := [r \<leftarrow> filtered s. fileName (heap s r) \<noteq> fn],
                                   revoked := revoked s @ [u],
                                   objectUrls := [kv \<leftarrow> objectUrls s. fst kv \<noteq> fn],
                                   grid := removeAll (Card (card e)) (grid s),
                                   renderedMap := [kv \<leftarrow> renderedMap s. fst kv \<noteq> fn]\<rparr>
                     | None \<Rightarrow> s\<lparr>store := store_delete fn (store s),
                                   fonts := [r \<leftarrow> fonts s. fileName (heap s r) \<noteq> fn],
                                   filtered := [r \<leftarrow> filtered s. fileName (heap s r) \<noteq> fn],
                                   grid := removeAll (Card (card e)) (grid s),
                                   renderedMap := [kv \<leftarrow> renderedMap s. fst kv \<noteq> fn]\<rparr>)
        | None \<Rightarrow> (case map_of (objectUrls s) fn of
                       Some u \<Rightarrow> s\<lparr>store := store_delete fn (store s),
                                   fonts := [r \<leftarrow> fonts s. fileName (heap s r) \<noteq> fn],
                                   filtered := [r \<leftarrow> filtered s. fileName (heap s r) \<noteq> fn],
                                   revoked := revoked s @ [u],
                                   objectUrls := [kv \<leftarrow> objectUrls s. fst kv \<noteq> fn]\<rparr>
                     | None \<Rightarrow> s\<lparr>store := store_delete fn (store s),
                                   fonts := [r \<leftarrow> fonts s. fileName (heap s r) \<noteq> fn],
                                   filtered := [r \<leftarrow> filtered s. fileName (heap s r) \<noteq> fn]\<rparr>))
        = after_delete fn s"
    by (cases s) (auto simp: after_delete_def name_of_def filter_absent_key split: option.splits)
  then show ?thesis
    using assms(1) by (simp add: deleteSingleFont_def d Let_def split: option.splits)
qed

lemma filter_of_filter:
  assumes "\<exists>Q. ys = filter Q xs"
  shows "filter P ys = [n \<leftarrow> xs. n \<in> set ys \<and> P n]"
proof -
  from assms obtain Q where ys: "ys = filter Q xs" by blast
  have "filter P ys = [n \<leftarrow> xs. Q n \<and> P n]" by (simp add: ys)
  also have "\<dots> = [n \<leftarrow> xs. n \<in> set ys \<and> P n]"
    by (intro filter_cong refl) (simp add: ys)
  finally show ?thesis .
qed

lemma after_delete_view:
  fixes E :: env and s :: state and fn :: jsstring
  assumes ok: "view_ok s" and cov: "covers E s"
  defines "F \<equiv> [r \<leftarrow> filtered s. name_of s r \<noteq> fn \<and> shown E s r]"
  shows "\<exists>p. filter_view E (after_delete fn s) =
           Inr ((after_delete fn s)\<lparr>filtered := F,
                  renderedMap := [kv \<leftarrow> renderedMap s. fst kv \<in> set (map (name_of s) F)],
                  grid := (if F = [] then [EmptyState] else map (card_of s) F),
                  previewNodes := p\<rparr>)"
proof -
  let ?a = "after_delete fn s"
  let ?t = "?a\<lparr>filtered := F\<rparr>"
  have sub: "set F \<subseteq> set (filtered s)" by (auto simp: F_def)
  have dn: "distinct (map (name_of s) (filtered s))" using ok by (rule view_ok_names)
  have dc: "distinct (map (\<lambda>kv. card (snd kv)) (renderedMap s))" using ok by (simp add: view_ok_def)
  have fnF: "fn \<notin> set (map (name_of s) F)" by (auto simp: F_def)
  \<comment> \<open>the filtered list that filter computes\<close>
  have "[r \<leftarrow> fonts ?a. matches E (toLowerCase E (search ?a)) (heap ?a r)] =
        [r \<leftarrow> fonts s. name_of s r \<noteq> fn \<and> shown E s r]"
    by (simp add: after_delete_def shown_def)
  also have "\<dots> = [r \<leftarrow> fonts s. r \<in> set (filtered s) \<and> (name_of s r \<noteq> fn \<and> shown E s r)]"
    using cov by (intro filter_cong refl) (auto simp: covers_def list_all_iff)
  also have "\<dots> = [r \<leftarrow> [r \<leftarrow> fonts s. r \<in> set (filtered s)]. name_of s r \<noteq> fn \<and> shown E s r]"
    by simp
  also have "\<dots> = F" using ok by (simp add: F_def view_ok_def)
  finally have fv: "filter_view E ?a = render E ?t"
    by (simp add: filter_view_def Let_def)
  \<comment> \<open>names in the loop are those of the state before\<close>
  have nm: "(\<lambda>r. fileName (heap ?a r)) = name_of s"
    by (rule ext) (simp add: after_delete_def name_of_def)
  have rm: "renderedMap ?a = [kv \<leftarrow> renderedMap s. fst kv \<noteq> fn]" by (simp add: after_delete_def)
  have keys: "\<And>r. r \<in> set F \<Longrightarrow> map_of (renderedMap ?t) (name_of s r) = map_of (renderedMap s) (name_of s r)"
    using map_of_filter_key [of "\<lambda>k. k \<noteq> fn" "renderedMap s"] by (auto simp: rm F_def)
  have co: "\<And>r. r \<in> set F \<Longrightarrow> card_of ?t r = card_of s r"
    using keys by (simp add: card_of_def nm [THEN fun_cong] name_of_def)
  have ent: "\<forall>r \<in> set (filtered ?t). map_of (renderedMap ?t) (fileName (heap ?t r)) \<noteq> None"
  proof
    fix r assume "r \<in> set (filtered ?t)"
    then have r: "r \<in> set F" by simp
    with sub view_ok_entry [OF ok, of r] keys [OF r] show "map_of (renderedMap ?t) (fileName (heap ?t r)) \<noteq> None"
      by (auto simp: nm [THEN fun_cong])
  qed
  \<comment> \<open>the grid after the cleanup\<close>
  let ?gone = "[kv \<leftarrow> renderedMap ?t. fst kv \<notin> set (map (\<lambda>r. fileName (heap ?t r)) (filtered ?t))]"
  let ?P = "\<lambda>n. n \<notin> set (map (\<lambda>kv. Card (card (snd kv))) ?gone)"
  have G: "if filtered ?t = [] then [n \<leftarrow> grid ?t. ?P n] \<in> {[], [EmptyState]}
           else [n \<leftarrow> grid ?t. ?P n] = map (card_of ?t) (filtered ?t)"
  proof (cases "filtered s = []")
    case True
    then have "renderedMap s = []" using ok by (simp add: view_ok_def)
    moreover have "grid s = [EmptyState]" using ok True by (simp add: view_ok_def)
    moreover have "F = []" using True by (simp add: F_def)
    ultimately show ?thesis by (simp add: after_delete_def)
  next
    case False
    then have g: "grid s = map (card_of s) (filtered s)" using ok by (simp add: view_ok_def)
    \<comment> \<open>which cards of the old grid stay\<close>
    have stay: "(card_of s r \<in> set (grid ?t) \<and> ?P (card_of s r)) \<longleftrightarrow> r \<in> set F"
      if r: "r \<in> set (filtered s)" for r
    proof -
      from view_ok_entry [OF ok r] obtain e where
        e: "map_of (renderedMap s) (name_of s r) = Some e" "card_of s r = Card (card e)"
          "(name_of s r, e) \<in> set (renderedMap s)" by blast
      have inj: "k = name_of s r" if "(k, e') \<in> set (renderedMap s)" "card e' = card e" for k e'
        using cards_inj [OF dc that(1) e(3) that(2)] .
      have inF: "name_of s r \<in> set (map (name_of s) F) \<longleftrightarrow> r \<in> set F"
      proof
        assume "name_of s r \<in> set (map (name_of s) F)"
        then obtain r' where r': "r' \<in> set F" "name_of s r' = name_of s r" by auto
        with sub have "r' \<in> set (filtered s)" by blast
        with dn r r'(2) have "r' = r" by (auto simp: distinct_map dest: inj_onD)
        with r'(1) show "r \<in> set F" by simp
      qed simp
      have 1: "card_of s r \<in> set (grid ?t) \<longleftrightarrow> name_of s r \<noteq> fn"
      proof (cases "map_of (renderedMap s) fn")
        case None
        then have "name_of s r \<noteq> fn" using e(1) by auto
        moreover have "card_of s r \<in> set (grid ?t)" using None g r by (simp add: after_delete_def)
        ultimately show ?thesis by simp
      next
        case (Some ef)
        then have "(fn, ef) \<in> set (renderedMap s)" by (rule map_of_SomeD)
        then have "card ef = card e \<longleftrightarrow> fn = name_of s r"
          using inj [of fn ef] e(1) Some by auto
        moreover have "card_of s r \<in> set (grid ?t) \<longleftrightarrow> card e \<noteq> card ef"
        proof -
          have mem: "card_of s r \<in> set (grid s)" using g r by simp
          have "grid ?t = removeAll (Card (card ef)) (grid s)" using Some by (simp add: after_delete_def)
          then have "card_of s r \<in> set (grid ?t) \<longleftrightarrow> card_of s r \<noteq> Card (card ef)"
            using mem by simp
          then show ?thesis by (simp add: e(2))
        qed
        ultimately show ?thesis by auto
      qed
      have 2: "?P (card_of s r) \<longleftrightarrow> (name_of s r = fn \<or> name_of s r \<in> set (map (name_of s) F))"
      proof -
        have "\<not> ?P (card_of s r) \<longleftrightarrow>
            (\<exists>k e'. (k, e') \<in> set (renderedMap s) \<and> k \<noteq> fn \<and> k \<notin> set (map (name_of s) F) \<and> card e' = card e)"
          by (simp add: rm nm e(2) image_iff) force
        also have "\<dots> \<longleftrightarrow> (name_of s r \<noteq> fn \<and> name_of s r \<notin> set (map (name_of s) F))"
          using inj e(3) by blast
        finally show ?thesis by blast
      qed
      from 1 2 inF fnF show ?thesis by auto
    qed
    have "\<exists>Q. grid ?t = filter Q (grid s)"
    proof (cases "map_of (renderedMap s) fn")
      case None
      then have "grid ?t = filter (\<lambda>n. True) (grid s)" by (simp add: after_delete_def)
      then show ?thesis by blast
    next
      case (Some ef)
      then have "grid ?t = filter (\<lambda>n. Card (card ef) \<noteq> n) (grid s)"
        by (simp add: after_delete_def removeAll_filter_not_eq)
      then show ?thesis by blast
    qed
    then have "[n \<leftarrow> grid ?t. ?P n] = [n \<leftarrow> grid s. n \<in> set (grid ?t) \<and> ?P n]"
      by (rule filter_of_filter)
    also have "\<dots> = map (card_of s) [r \<leftarrow> filtered s. card_of s r \<in> set (grid ?t) \<and> ?P (card_of s r)]"
      by (simp add: g filter_map comp_def)
    also have "[r \<leftarrow> filtered s. card_of s r \<in> set (grid ?t) \<and> ?P (card_of s r)] = [r \<leftarrow> filtered s. r \<in> set F]"
      using stay by (intro filter_cong refl) blast
    also have "\<dots> = F"
      unfolding F_def by (intro filter_cong refl) auto
    finally have c: "[n \<leftarrow> grid ?t. ?P n] = map (card_of s) F" .
    have c': "map (card_of s) F = map (card_of ?t) F" using co by simp
    show ?thesis
    proof (cases "F = []")
      case True
      with c show ?thesis by simp
    next
      case False
      with c c' show ?thesis by simp
    qed
  qed
  from render_settled [OF ent G, of E] obtain p where
    r: "render E ?t = Inr (?t\<lparr>renderedMap := [kv \<leftarrow> renderedMap ?t. fst kv \<in> set (map (\<lambda>r. fileName (heap ?t r)) (filtered ?t))],
        grid := (if filtered ?t = [] then [EmptyState] else map (card_of ?t) (filtered ?t)),
        previewNodes := p\<rparr>)" by blast
  have x1: "[kv \<leftarrow> renderedMap ?t. fst kv \<in> set (map (\<lambda>r. fileName (heap ?t r)) (filtered ?t))] =
      [kv \<leftarrow> renderedMap s. fst kv \<in> set (map (name_of s) F)]"
    using fnF by (auto simp: rm nm intro: filter_cong)
  have "map (card_of ?t) F = map (card_of s) F" using co by (intro map_cong refl)
  then have x2: "(if filtered ?t = [] then [EmptyState] else map (card_of ?t) (filtered ?t)) =
      (if F = [] then [EmptyState] else map (card_of s) F)"
    by (simp del: map_eq_conv)
  have "render E ?t = Inr (?t\<lparr>renderedMap := [kv \<leftarrow> renderedMap s. fst kv \<in> set (map (name_of s) F)],
        grid := (if F = [] then [EmptyState] else map (card_of s) F),
        previewNodes := p\<rparr>)"
    using r by (simp only: x1 x2)
  with fv show ?thesis by (intro exI [of _ p]) simp
qed

lemma in_sync_covers: "in_sync E s \<Longrightarrow> covers E s"
  by (auto simp: in_sync_def covers_def list_all_iff)

text \<open>
  C5, as amended. On a page that shows the filtered view, deleting a record (confirmed, and
  deleted from the store) removes it from \<open>fonts\<close> and from \<open>filtered\<close>, revokes its
  object URL and drops it from the URL map, and removes its entry and its card. Every other
  record stays in \<open>fonts\<close>, the same object at the same relative place. The view is then
  computed again from the search string: the other records that still match keep their
  entry, their card and their order, and when the view was in sync before, these are all the
  other records of the view.
\<close>

theorem delete_removes_record:
  fixes E :: env and s :: state and fn :: jsstring
  defines "s' \<equiv> deleteSingleFont E fn s"
  assumes c: "confirm_answer E" and d: "db s" "delete_ok E fn" and ok: "view_ok s" and cov: "covers E s"
  shows "fonts s' = [r \<leftarrow> fonts s. name_of s r \<noteq> fn] \<and> heap s' = heap s \<and>
         filtered s' = [r \<leftarrow> filtered s. name_of s r \<noteq> fn \<and> shown E s r] \<and>
         store s' = store_delete fn (store s) \<and>
         objectUrls s' = [kv \<leftarrow> objectUrls s. fst kv \<noteq> fn] \<and>
         revoked s' = revoked s @ (case map_of (objectUrls s) fn of Some u \<Rightarrow> [u] | None \<Rightarrow> []) \<and>
         renderedMap s' = [kv \<leftarrow> renderedMap s. fst kv \<in> set (map (name_of s) (filtered s'))] \<and>
         grid s' = (if filtered s' = [] then [EmptyState] else map (card_of s) (filtered s')) \<and>
         toasts s' = toasts s @ [Deleted] \<and>
         (in_sync E s \<longrightarrow> filtered s' = [r \<leftarrow> filtered s. name_of s r \<noteq> fn])"
proof -
  let ?F = "[r \<leftarrow> filtered s. name_of s r \<noteq> fn \<and> shown E s r]"
  from after_delete_view [OF ok cov, of fn] obtain p where
    fv: "filter_view E (after_delete fn s) =
           Inr ((after_delete fn s)\<lparr>filtered := ?F,
                  renderedMap := [kv \<leftarrow> renderedMap s. fst kv \<in> set (map (name_of s) ?F)],
                  grid := (if ?F = [] then [EmptyState] else map (card_of s) ?F),
                  previewNodes := p\<rparr>)"
    by blast
  have s': "s' = toast Deleted ((after_delete fn s)\<lparr>filtered := ?F,
                  renderedMap := [kv \<leftarrow> renderedMap s. fst kv \<in> set (map (name_of s) ?F)],
                  grid := (if ?F = [] then [EmptyState] else map (card_of s) ?F),
                  previewNodes := p\<rparr>)"
    unfolding s'_def deleteSingleFont_eq [OF c d] fv by simp
  have f: "filtered s' = ?F" by (simp add: s' toast_def)
  have sync: "?F = [r \<leftarrow> filtered s. name_of s r \<noteq> fn]" if "in_sync E s"
  proof -
    from that have "\<And>r. r \<in> set (filtered s) \<Longrightarrow> shown E s r" by (auto simp: in_sync_def)
    then show ?thesis by (intro filter_cong refl) simp
  qed
  show ?thesis
    unfolding f using sync by (simp add: s' toast_def after_delete_def)
qed

theorem delete_removes_record_witness:
  "confirm_answer env0 \<and> db demo_state \<and> delete_ok env0 (js ''bar.otf'') \<and> view_ok demo_state \<and>
   covers env0 demo_state \<and> in_sync env0 demo_state \<and>
   fonts (deleteSingleFont env0 (js ''bar.otf'') demo_state) = [0, 2] \<and>
   filtered (deleteSingleFont env0 (js ''bar.otf'') demo_state) = [0, 2] \<and>
   objectUrls (deleteSingleFont env0 (js ''bar.otf'') demo_state) =
     [(js ''Foo.ttf'', BlobUrl 0), (js ''baz.woff'', BlobUrl 2)] \<and>
   revoked (deleteSingleFont env0 (js ''bar.otf'') demo_state) = [BlobUrl 1] \<and>
   renderedMap (deleteSingleFont env0 (js ''bar.otf'') demo_state) =
     [(js ''Foo.ttf'', \<lparr>card = 0, preview = 1\<rparr>), (js ''baz.woff'', \<lparr>card = 4, preview = 5\<rparr>)] \<and>
   grid (deleteSingleFont env0 (js ''bar.otf'') demo_state) = [Card 0, Card 4]"
proof -
  have c: "confirm_answer env0" and d: "db demo_state" "delete_ok env0 (js ''bar.otf'')"
    by (simp_all add: env0_def demo_state_def)
  have sh: "shown env0 demo_state 0" "shown env0 demo_state (Suc 0)" "shown env0 demo_state 2"
    by (simp_all add: shown_def matches_def demo_state_def demo_record_def toLowerCase_def js_def)
  have nm: "name_of demo_state 0 = js ''Foo.ttf''" "name_of demo_state (Suc 0) = js ''bar.otf''"
    "name_of demo_state 2 = js ''baz.woff''"
    by (simp_all add: name_of_def demo_state_def demo_record_def)
  have co: "card_of demo_state 0 = Card 0" "card_of demo_state (Suc 0) = Card 2" "card_of demo_state 2 = Card 4"
    by (simp_all add: card_of_def demo_state_def demo_record_def js_def)
  have lists: "fonts demo_state = [0, Suc 0, 2]" "filtered demo_state = [0, Suc 0, 2]"
    by (simp_all add: demo_state_def)
  have ok: "view_ok demo_state"
    unfolding view_ok_def lists by (simp add: nm co) (simp add: demo_state_def js_def)
  have sy: "in_sync env0 demo_state" by (simp add: in_sync_def lists sh)
  have cov: "covers env0 demo_state" using sy by (rule in_sync_covers)
  show ?thesis
    using delete_removes_record [OF c d ok cov] c d ok cov sy
    by (simp add: lists nm co sh) (simp add: demo_state_def js_def)
qed

lemma demo_record_simps:
  "demo_record 0 =
     \<lparr>fileName = js ''Foo.ttf'',
      data = BlobData \<lparr>blob_bytes = [0x00, 0x01, 0x00, 0x00, 0x00, 0x0C], blob_type = js ''font/ttf''\<rparr>,
      userTag = Some []\<rparr>"
  "demo_record (Suc 0) =
     \<lparr>fileName = js ''bar.otf'',
      data = BlobData \<lparr>blob_bytes = [0x4F, 0x54, 0x54, 0x4F], blob_type = js ''application/octet-stream''\<rparr>,
      userTag = Some (js ''Foo'')\<rparr>"
  "demo_record 2 =
     \<lparr>fileName = js ''baz.woff'',
      data = BlobData \<lparr>blob_bytes = [0x77, 0x4F, 0x46, 0x46], blob_type = js ''application/octet-stream''\<rparr>,
      userTag = Some []\<rparr>"
  by (simp_all add: demo_record_def)

lemma demo_search: "setSearch env0 (js ''foo'') demo_state = Inr searched"
proof -
  have f: "[r \<leftarrow> fonts demo_state. matches env0 (toLowerCase env0 (js ''foo'')) (heap demo_state r)] = [0, 1]"
    by (simp add: demo_state_def matches_def toLowerCase_def demo_record_simps js_def ascii_lower_def)
  show ?thesis
    apply (simp add: setSearch_def filter_view_def Let_def f)
    apply (simp add: render_def demo_state_def Let_def demo_record_simps js_def place_def)
    apply (simp add: searched_def demo_state_def demo_record_simps js_def)
    done
qed

lemma stale_record_simps:
  "stale_record 0 = demo_record 0"
  "stale_record (Suc 0) = (demo_record (Suc 0))\<lparr>userTag := Some (js ''serif'')\<rparr>"
  "stale_record 2 = demo_record 2"
  by (simp_all add: stale_record_def)

lemma demo_retag: "updateTag env0 (js ''bar.otf'') (js ''serif'') searched = stale_state"
proof -
  have t: "sanitizeTag (js ''serif'') = js ''serif''"
    by (simp add: sanitizeTag_def trim_def is_js_whitespace_def stripped_class_def js_def)
  have f: "find (\<lambda>r. fileName (heap searched r) = js ''bar.otf'') (fonts searched) = Some (Suc 0)"
    by (simp add: searched_def demo_state_def demo_record_simps js_def)
  show ?thesis
    apply (simp add: updateTag_def f t Let_def DB_put_def)
    apply (simp add: searched_def demo_state_def env0_def demo_record_simps stale_state_def
        stale_record_simps js_def)
    apply (simp add: fun_eq_iff stale_record_def demo_record_def js_def)
    done
qed

lemma demo_delete: "deleteSingleFont env0 (js ''Foo.ttf'') stale_state = emptied"
  apply (simp add: deleteSingleFont_def DB_delete_def env0_def store_delete_def Let_def)
  apply (simp add: stale_state_def searched_def demo_state_def stale_record_simps demo_record_simps
      js_def filter_view_def matches_def toLowerCase_def ascii_lower_def render_def Let_def toast_def)
  apply (simp add: emptied_def stale_state_def searched_def demo_state_def stale_record_simps
      demo_record_simps js_def)
  done

text \<open>
  C5 as stated fails: after a search for \<open>foo\<close> the page shows \<open>Foo.ttf\<close> and
  \<open>bar.otf\<close> (tagged \<open>Foo\<close>); the tag is edited to \<open>serif\<close>, which does not filter
  again; deleting \<open>Foo.ttf\<close> then drops \<open>bar.otf\<close> from the view and its card from the
  grid as well, though the record stays in the registry.
\<close>

theorem delete_drops_stale_entry:
  "settle (setSearch env0 (js ''foo'') demo_state) = searched \<and>
   updateTag env0 (js ''bar.otf'') (js ''serif'') searched = stale_state \<and>
   1 \<in> set (filtered stale_state) \<and>
   map_of (renderedMap stale_state) (js ''bar.otf'') = Some \<lparr>card = 2, preview = 3\<rparr> \<and>
   grid stale_state = [Card 0, Card 2] \<and>
   1 \<in> set (fonts (deleteSingleFont env0 (js ''Foo.ttf'') stale_state)) \<and>
   1 \<notin> set (filtered (deleteSingleFont env0 (js ''Foo.ttf'') stale_state)) \<and>
   map_of (renderedMap (deleteSingleFont env0 (js ''Foo.ttf'') stale_state)) (js ''bar.otf'') = None \<and>
   grid (deleteSingleFont env0 (js ''Foo.ttf'') stale_state) = [EmptyState]"
  by (simp add: demo_search demo_retag demo_delete settle_def)
    (simp add: emptied_def stale_state_def searched_def js_def)

end
